theory Spec2Isabelle
  imports Main "HOL-Library.Word"
begin

section \<open>Markable pointers\<close>

text \<open>
  Nodes live in a store indexed by addresses; a node pointer is an optional address,
  \<open>None\<close> being \<open>nullptr\<close>.  The content of an \<open>LMarkablePointer\<close> or
  \<open>SNMarkablePointer\<close> cell is the pair \<open>(val_, marked_)\<close> of the reference object it
  points to.  The operations below are the member functions of the two (textually
  identical) classes, executed by one thread: the final \<open>compare_exchange_strong\<close> of
  \<open>attemptMark\<close> and \<open>compareAndSet\<close> compares the cell with the value loaded two lines
  earlier and therefore succeeds.
\<close>

type_synonym addr = nat
type_synonym ptr = "addr option"
type_synonym mref = "ptr \<times> bool"
type_synonym u64 = "64 word"

definition getReference :: "mref \<Rightarrow> ptr" where
  "getReference c = fst c"

definition getMark :: "mref \<Rightarrow> bool" where
  "getMark c = snd c"

definition attemptMark :: "mref \<Rightarrow> ptr \<Rightarrow> bool \<Rightarrow> bool \<times> mref" where
  "attemptMark c expectedPtr newMark =
     (if getReference c \<noteq> expectedPtr then (False, c)
      else if getMark c = newMark then (True, c)
      else (True, (getReference c, newMark)))"

definition compareAndSet :: "mref \<Rightarrow> ptr \<Rightarrow> ptr \<Rightarrow> bool \<Rightarrow> bool \<Rightarrow> bool \<times> mref" where
  "compareAndSet c expectedPtr newPtr expectedMark newMark =
     (if getReference c \<noteq> expectedPtr then (False, c)
      else if getMark c \<noteq> expectedMark then (False, c)
      else (True, (newPtr, newMark)))"

text \<open>
  The calls an operation makes on the \<open>EpochManager\<close> singleton are recorded in a log,
  newest first.  Retirements of the reference cells themselves are not recorded.
\<close>

datatype event = EnterEpoch | LeaveEpoch | RetireNode addr

fun depth :: "event list \<Rightarrow> int" where
  "depth [] = 0"
| "depth (EnterEpoch # es) = depth es + 1"
| "depth (LeaveEpoch # es) = depth es - 1"
| "depth (RetireNode a # es) = depth es"


section \<open>The ordered list (List.h)\<close>

record 'v lnode =
  lkey :: u64
  ldata :: 'v
  lnext :: mref

record 'v llist =
  lheap :: "addr \<Rightarrow> 'v lnode"
  lfresh :: addr
  llog :: "event list"

definition l_head :: addr where "l_head = 0"
definition l_tail :: addr where "l_tail = 1"

definition lnx :: "'v llist \<Rightarrow> addr \<Rightarrow> mref" where
  "lnx s a = lnext (lheap s a)"

definition lset_next :: "'v llist \<Rightarrow> addr \<Rightarrow> mref \<Rightarrow> 'v llist" where
  "lset_next s a c = s\<lparr>lheap := (lheap s)(a := (lheap s a)\<lparr>lnext := c\<rparr>)\<rparr>"

definition lnew :: "'v llist \<Rightarrow> u64 \<Rightarrow> 'v \<Rightarrow> 'v llist" where
  "lnew s k d =
     s\<lparr>lheap := (lheap s)(lfresh s := \<lparr>lkey = k, ldata = d, lnext = (None, False)\<rparr>),
       lfresh := Suc (lfresh s)\<rparr>"

definition llog_event :: "event \<Rightarrow> 'v llist \<Rightarrow> 'v llist" where
  "llog_event e s = s\<lparr>llog := e # llog s\<rparr>"

text \<open>The constructor; \<open>d\<close> is the default-constructed payload \<open>T()\<close>.\<close>

definition List_new :: "'v \<Rightarrow> 'v llist" where
  "List_new d =
     lset_next
       (lnew (lnew \<lparr>lheap = (\<lambda>_. \<lparr>lkey = 0, ldata = d, lnext = (None, False)\<rparr>),
                    lfresh = 0, llog = []\<rparr> 0 d) (- 1) d)
       l_head (Some l_tail, False)"

text \<open>
  \<open>Window::find\<close>.  \<open>find_walk\<close> is the inner \<open>while (true)\<close> with its snipping loop;
  it yields \<open>None\<close> in the window position when a failed snip jumps to \<open>RETRY\<close>.  A
  result \<open>None\<close> of the whole function stands for a call that does not return: the
  loop runs forever or a null pointer is dereferenced.
\<close>

partial_function (option) find_walk ::
  "'v llist \<Rightarrow> u64 \<Rightarrow> addr \<Rightarrow> ptr \<Rightarrow> ('v llist \<times> (addr \<times> addr) option) option" where
  "find_walk s key prd cur =
     (case cur of
        None \<Rightarrow> None
      | Some c \<Rightarrow>
          if getMark (lnx s c) then
            (if fst (compareAndSet (lnx s prd) cur (getReference (lnx s c)) False False)
             then find_walk
                    (lset_next s prd
                       (snd (compareAndSet (lnx s prd) cur (getReference (lnx s c)) False False)))
                    key prd (getReference (lnx s c))
             else Some (s, None))
          else if key \<le> lkey (lheap s c) then Some (s, Some (prd, c))
          else find_walk s key c (getReference (lnx s c)))"

declare find_walk.simps [code]

partial_function (option) Window_find ::
  "'v llist \<Rightarrow> u64 \<Rightarrow> ('v llist \<times> addr \<times> addr) option" where
  "Window_find s key =
     (case find_walk s key l_head (getReference (lnx s l_head)) of
        None \<Rightarrow> None
      | Some (s', None) \<Rightarrow> Window_find s' key
      | Some (s', Some w) \<Rightarrow> Some (s', w))"

declare Window_find.simps [code]

partial_function (option) List_add_loop ::
  "'v llist \<Rightarrow> u64 \<Rightarrow> 'v \<Rightarrow> (bool \<times> 'v llist) option" where
  "List_add_loop s key item =
     (case Window_find s key of
        None \<Rightarrow> None
      | Some (s1, prd, cur) \<Rightarrow>
          if lkey (lheap s1 cur) = key then Some (False, s1)
          else
            (let node = lfresh s1;
                 s2 = lset_next (lnew s1 key item) node (Some cur, False)
             in if fst (compareAndSet (lnx s2 prd) (Some cur) (Some node) False False)
                then Some (True,
                       llog_event LeaveEpoch
                         (lset_next s2 prd
                            (snd (compareAndSet (lnx s2 prd) (Some cur) (Some node) False False))))
                else List_add_loop s2 key item))"

declare List_add_loop.simps [code]

definition List_add :: "'v llist \<Rightarrow> u64 \<Rightarrow> 'v \<Rightarrow> (bool \<times> 'v llist) option" where
  "List_add s key item = List_add_loop (llog_event EnterEpoch s) key item"

partial_function (option) List_remove_loop ::
  "'v llist \<Rightarrow> u64 \<Rightarrow> (bool \<times> 'v llist) option" where
  "List_remove_loop s key =
     (case Window_find s key of
        None \<Rightarrow> None
      | Some (s1, prd, cur) \<Rightarrow>
          if lkey (lheap s1 cur) \<noteq> key then Some (False, llog_event LeaveEpoch s1)
          else
            (let scc = getReference (lnx s1 cur);
                 snip = attemptMark (lnx s1 cur) scc True
             in if \<not> fst snip then List_remove_loop s1 key
                else
                  (let s2 = lset_next s1 cur (snd snip);
                       s3 = lset_next s2 prd
                              (snd (compareAndSet (lnx s2 prd) (Some cur) scc False False))
                   in Some (True, llog_event LeaveEpoch (llog_event (RetireNode cur) s3)))))"

declare List_remove_loop.simps [code]

definition List_remove :: "'v llist \<Rightarrow> u64 \<Rightarrow> (bool \<times> 'v llist) option" where
  "List_remove s key = List_remove_loop (llog_event EnterEpoch s) key"

partial_function (option) List_contains_loop :: "'v llist \<Rightarrow> u64 \<Rightarrow> ptr \<Rightarrow> bool option" where
  "List_contains_loop s key cur =
     (case cur of
        None \<Rightarrow> Some False
      | Some c \<Rightarrow>
          if key \<le> lkey (lheap s c) then Some (lkey (lheap s c) = key \<and> \<not> getMark (lnx s c))
          else List_contains_loop s key (getReference (lnx s c)))"

declare List_contains_loop.simps [code]

definition List_contains :: "'v llist \<Rightarrow> u64 \<Rightarrow> bool option" where
  "List_contains s key = List_contains_loop s key (Some l_head)"

text \<open>
  \<open>get\<close> returns a pointer to the \<open>data\<close> member of a node, modelled by the address of
  that node.  Its local \<open>marked\<close> is written by \<open>curr->next.get(marked)\<close> while \<open>curr\<close>
  is still the node being left.
\<close>

partial_function (option) List_get_loop ::
  "'v llist \<Rightarrow> u64 \<Rightarrow> ptr \<Rightarrow> bool \<Rightarrow> (addr \<times> bool) option" where
  "List_get_loop s key cur marked =
     (case cur of
        None \<Rightarrow> None
      | Some c \<Rightarrow>
          if lkey (lheap s c) < key
          then List_get_loop s key (getReference (lnx s c)) (getMark (lnx s c))
          else Some (c, marked))"

declare List_get_loop.simps [code]

definition List_get :: "'v llist \<Rightarrow> u64 \<Rightarrow> ptr option" where
  "List_get s key =
     (case List_get_loop s key (Some l_head) False of
        None \<Rightarrow> None
      | Some (cur, marked) \<Rightarrow>
          Some (if lkey (lheap s cur) = key \<and> \<not> marked then Some cur else None))"


section \<open>The skip list (Skiplist.h)\<close>

record 'v snode =
  skey :: u64
  sdata :: "'v option"
  topLevel :: nat
  snext :: "nat \<Rightarrow> mref"

record 'v skiplist =
  sheap :: "addr \<Rightarrow> 'v snode"
  sfresh :: addr
  slog :: "event list"

definition MAX_LEVEL :: nat where "MAX_LEVEL = 16"
definition s_head :: addr where "s_head = 0"
definition s_tail :: addr where "s_tail = 1"

definition snx :: "'v skiplist \<Rightarrow> addr \<Rightarrow> nat \<Rightarrow> mref" where
  "snx s a level = snext (sheap s a) level"

definition sset_next :: "'v skiplist \<Rightarrow> addr \<Rightarrow> nat \<Rightarrow> mref \<Rightarrow> 'v skiplist" where
  "sset_next s a level c =
     s\<lparr>sheap := (sheap s)(a := (sheap s a)\<lparr>snext := (snext (sheap s a))(level := c)\<rparr>)\<rparr>"

text \<open>\<open>a->next[level].compareAndSet(...)\<close> on the store: the outcome and the new store.\<close>

definition scas ::
  "'v skiplist \<Rightarrow> addr \<Rightarrow> nat \<Rightarrow> ptr \<Rightarrow> ptr \<Rightarrow> bool \<Rightarrow> bool \<Rightarrow> bool \<times> 'v skiplist" where
  "scas s a level expectedPtr newPtr expectedMark newMark =
     (fst (compareAndSet (snx s a level) expectedPtr newPtr expectedMark newMark),
      sset_next s a level
        (snd (compareAndSet (snx s a level) expectedPtr newPtr expectedMark newMark)))"

text \<open>
  \<open>new SNode<T>(key, value, height)\<close>: the node gets the next free address and an array
  of cells that all hold \<open>(nullptr, false)\<close>.  Nothing is ever freed (the reclaimer of
  Epochs.h is a stub), so addresses are not reused.
\<close>

definition snew :: "'v skiplist \<Rightarrow> u64 \<Rightarrow> 'v option \<Rightarrow> nat \<Rightarrow> 'v skiplist" where
  "snew s k d h =
     s\<lparr>sheap := (sheap s)(sfresh s :=
          \<lparr>skey = k, sdata = d, topLevel = h, snext = (\<lambda>_. (None, False))\<rparr>),
       sfresh := Suc (sfresh s)\<rparr>"

definition slog_event :: "event \<Rightarrow> 'v skiplist \<Rightarrow> 'v skiplist" where
  "slog_event e s = s\<lparr>slog := e # slog s\<rparr>"

text \<open>\<open>for (level = 0; level < n; ++level) a->next[level].set(f[level], false)\<close>\<close>

primrec set_levels :: "'v skiplist \<Rightarrow> addr \<Rightarrow> (nat \<Rightarrow> ptr) \<Rightarrow> nat \<Rightarrow> 'v skiplist" where
  "set_levels s a f 0 = s"
| "set_levels s a f (Suc n) = sset_next (set_levels s a f n) a n (f n, False)"

definition SkipList_new :: "'v skiplist" where
  "SkipList_new =
     set_levels
       (snew (snew \<lparr>sheap = (\<lambda>_. \<lparr>skey = 0, sdata = None, topLevel = 0,
                                     snext = (\<lambda>_. (None, False))\<rparr>),
                    sfresh = 0, slog = []\<rparr> 0 None MAX_LEVEL) (- 1) None MAX_LEVEL)
       s_head (\<lambda>_. Some s_tail) (Suc MAX_LEVEL)"

text \<open>
  \<open>randomLevel\<close>: \<open>coins i\<close> is the outcome of the \<open>i\<close>-th test
  \<open>std::rand() / double(RAND_MAX) < p\<close> of the call.
\<close>

function randomLevel :: "(nat \<Rightarrow> bool) \<Rightarrow> nat \<Rightarrow> nat \<Rightarrow> nat" where
  "randomLevel coins maxIndex level =
     (if coins level \<and> level < maxIndex then randomLevel coins maxIndex (Suc level) else level)"
  by pat_completeness auto
termination
  by (relation "measure (\<lambda>(coins, maxIndex, level). maxIndex - level)") auto

declare randomLevel.simps [simp del]

text \<open>
  \<open>find\<close>.  \<open>read_succ\<close> is the expression
  \<open>(level <= curr->topLevel) ? curr->next[level].get(marked) : tail\<close>, giving \<open>succ\<close> and
  the new value of the local \<open>marked\<close>, whose old value is \<open>m0\<close>.  \<open>sfind_walk\<close> is the
  \<open>while (true)\<close> of one level.  The window is \<open>None\<close> when a failed snip jumps to
  \<open>RETRY\<close>.
\<close>

definition read_succ :: "'v skiplist \<Rightarrow> addr \<Rightarrow> nat \<Rightarrow> bool \<Rightarrow> mref" where
  "read_succ s c level m0 =
     (if level \<le> topLevel (sheap s c) then snx s c level else (Some s_tail, m0))"

partial_function (option) sfind_walk ::
  "'v skiplist \<Rightarrow> u64 \<Rightarrow> nat \<Rightarrow> addr \<Rightarrow> ptr \<Rightarrow> bool \<Rightarrow>
     ('v skiplist \<times> (addr \<times> addr) option) option" where
  "sfind_walk s key level prd cur m0 =
     (case cur of
        None \<Rightarrow> None
      | Some c \<Rightarrow>
          (let r = read_succ s c level m0
           in if snd r then
                (if fst (scas s prd level cur (fst r) False False)
                 then sfind_walk (snd (scas s prd level cur (fst r) False False)) key level prd
                        (getReference (snx (snd (scas s prd level cur (fst r) False False)) prd level))
                        True
                 else Some (s, None))
              else if skey (sheap s c) < key then sfind_walk s key level c (fst r) False
              else Some (s, Some (prd, c))))"

declare sfind_walk.simps [code]

text \<open>
  The \<open>for\<close> loop over the levels, from \<open>level\<close> down to 0.  The last component of the
  result is \<open>None\<close> for a jump to \<open>RETRY\<close> and the final \<open>curr\<close> otherwise.
\<close>

function find_levels ::
  "'v skiplist \<Rightarrow> u64 \<Rightarrow> nat \<Rightarrow> (nat \<Rightarrow> ptr) \<Rightarrow> (nat \<Rightarrow> ptr) \<Rightarrow>
     ('v skiplist \<times> (nat \<Rightarrow> ptr) \<times> (nat \<Rightarrow> ptr) \<times> addr option) option" where
  "find_levels s key level preds succs =
     (case sfind_walk s key level s_head (getReference (snx s s_head level)) False of
        None \<Rightarrow> None
      | Some (s', None) \<Rightarrow> Some (s', preds, succs, None)
      | Some (s', Some (p, c)) \<Rightarrow>
          if level = 0 then Some (s', preds(level := Some p), succs(level := Some c), Some c)
          else find_levels s' key (level - 1) (preds(level := Some p)) (succs(level := Some c)))"
  by pat_completeness auto
termination
  by (relation "measure (\<lambda>(s, key, level, preds, succs). level)") auto

declare find_levels.simps [simp del]

partial_function (option) SkipList_find ::
  "'v skiplist \<Rightarrow> u64 \<Rightarrow> (nat \<Rightarrow> ptr) \<Rightarrow> (nat \<Rightarrow> ptr) \<Rightarrow>
     (bool \<times> 'v skiplist \<times> (nat \<Rightarrow> ptr) \<times> (nat \<Rightarrow> ptr)) option" where
  "SkipList_find s key preds succs =
     (case find_levels s key MAX_LEVEL preds succs of
        None \<Rightarrow> None
      | Some (s', preds', succs', None) \<Rightarrow> SkipList_find s' key preds' succs'
      | Some (s', preds', succs', Some c) \<Rightarrow> Some (skey (sheap s' c) = key, s', preds', succs'))"

declare SkipList_find.simps [code]


text \<open>
  \<open>add\<close>.  \<open>add_link\<close> is the \<open>while (true)\<close> that installs the node at one higher level,
  \<open>add_links\<close> the \<open>for\<close> loop around it (Step 3), \<open>SkipList_add_loop\<close> the outer
  \<open>while (true)\<close>; \<open>newNode\<close> is \<open>None\<close> until the node has been allocated.
\<close>

partial_function (option) add_link ::
  "'v skiplist \<Rightarrow> u64 \<Rightarrow> addr \<Rightarrow> nat \<Rightarrow> (nat \<Rightarrow> ptr) \<Rightarrow> (nat \<Rightarrow> ptr) \<Rightarrow>
     ('v skiplist \<times> (nat \<Rightarrow> ptr) \<times> (nat \<Rightarrow> ptr)) option" where
  "add_link s key node level preds succs =
     (case preds level of
        None \<Rightarrow> None
      | Some p \<Rightarrow>
          if fst (scas s p level (succs level) (Some node) False False)
          then Some (snd (scas s p level (succs level) (Some node) False False), preds, succs)
          else (case SkipList_find s key preds succs of
                  None \<Rightarrow> None
                | Some (found, s', preds', succs') \<Rightarrow> add_link s' key node level preds' succs'))"

declare add_link.simps [code]

function add_links ::
  "'v skiplist \<Rightarrow> u64 \<Rightarrow> addr \<Rightarrow> nat \<Rightarrow> nat \<Rightarrow> (nat \<Rightarrow> ptr) \<Rightarrow> (nat \<Rightarrow> ptr) \<Rightarrow>
     'v skiplist option" where
  "add_links s key node level height preds succs =
     (if level \<le> height
      then (case add_link s key node level preds succs of
              None \<Rightarrow> None
            | Some (s', preds', succs') \<Rightarrow> add_links s' key node (Suc level) height preds' succs')
      else Some s)"
  by pat_completeness auto
termination
  by (relation "measure (\<lambda>(s, key, node, level, height, preds, succs). Suc height - level)") auto

declare add_links.simps [simp del]

partial_function (option) SkipList_add_loop ::
  "'v skiplist \<Rightarrow> u64 \<Rightarrow> 'v \<Rightarrow> nat \<Rightarrow> ptr \<Rightarrow> (nat \<Rightarrow> ptr) \<Rightarrow> (nat \<Rightarrow> ptr) \<Rightarrow>
     (bool \<times> 'v skiplist) option" where
  "SkipList_add_loop s key x height newNode preds succs =
     (case SkipList_find s key preds succs of
        None \<Rightarrow> None
      | Some (found, s1, preds1, succs1) \<Rightarrow>
          if found then Some (False, slog_event LeaveEpoch s1)
          else
            (let node = (case newNode of None \<Rightarrow> sfresh s1 | Some n \<Rightarrow> n);
                 s2 = (case newNode of None \<Rightarrow> snew s1 key (Some x) height | Some n \<Rightarrow> s1);
                 s3 = set_levels s2 node succs1 (Suc height)
             in case preds1 0 of
                  None \<Rightarrow> None
                | Some p \<Rightarrow>
                    if \<not> fst (scas s3 p 0 (succs1 0) (Some node) False False)
                    then SkipList_add_loop s3 key x height (Some node) preds1 succs1
                    else (case add_links (snd (scas s3 p 0 (succs1 0) (Some node) False False))
                                 key node 1 height preds1 succs1 of
                            None \<Rightarrow> None
                          | Some s5 \<Rightarrow> Some (True, slog_event LeaveEpoch s5))))"

declare SkipList_add_loop.simps [code]

text \<open>
  The parameter of \<open>add\<close> is an \<open>int\<close>; \<open>find\<close> and the node constructor take a
  \<open>uint64_t\<close>, so the key is sign-extended on the way.  \<open>SkipList_add_at\<close> is the call
  with the outcome \<open>height\<close> of \<open>randomLevel()\<close> given.
\<close>

definition SkipList_add_at ::
  "'v skiplist \<Rightarrow> nat \<Rightarrow> 32 word \<Rightarrow> 'v \<Rightarrow> (bool \<times> 'v skiplist) option" where
  "SkipList_add_at s height key x =
     SkipList_add_loop (slog_event EnterEpoch s) (scast key) x height None (\<lambda>_. None) (\<lambda>_. None)"

definition SkipList_add ::
  "'v skiplist \<Rightarrow> (nat \<Rightarrow> bool) \<Rightarrow> 32 word \<Rightarrow> 'v \<Rightarrow> (bool \<times> 'v skiplist) option" where
  "SkipList_add s coins key x = SkipList_add_at s (randomLevel coins MAX_LEVEL 0) key x"

text \<open>
  \<open>remove\<close>.  \<open>mark_level\<close> is the \<open>do ... while\<close> of Step 1 at one level, \<open>mark_levels\<close>
  the loop from the top level down to level 1, \<open>mark_bottom\<close> the \<open>do ... while\<close> of
  Step 2 (its flag is \<open>False\<close> when the node was found marked and the function
  returns \<open>false\<close> at once), \<open>unlink_levels\<close> the loop of Step 3 (its flag is \<open>False\<close>
  for the jump to \<open>RETRY_REMOVE\<close>).
\<close>

partial_function (option) mark_level :: "'v skiplist \<Rightarrow> addr \<Rightarrow> nat \<Rightarrow> 'v skiplist option" where
  "mark_level s node level =
     (if getMark (snx s node level) then Some s
      else if fst (attemptMark (snx s node level) (getReference (snx s node level)) True)
      then Some (sset_next s node level
                   (snd (attemptMark (snx s node level) (getReference (snx s node level)) True)))
      else mark_level s node level)"

declare mark_level.simps [code]

function mark_levels :: "'v skiplist \<Rightarrow> addr \<Rightarrow> nat \<Rightarrow> 'v skiplist option" where
  "mark_levels s node level =
     (if 0 < level
      then (case mark_level s node level of
              None \<Rightarrow> None
            | Some s' \<Rightarrow> mark_levels s' node (level - 1))
      else Some s)"
  by pat_completeness auto
termination
  by (relation "measure (\<lambda>(s, node, level). level)") auto

declare mark_levels.simps [simp del]

partial_function (option) mark_bottom :: "'v skiplist \<Rightarrow> addr \<Rightarrow> ('v skiplist \<times> bool) option" where
  "mark_bottom s node =
     (if getMark (snx s node 0) then Some (s, False)
      else if fst (scas s node 0 (getReference (snx s node 0)) (getReference (snx s node 0)) False True)
      then Some (snd (scas s node 0 (getReference (snx s node 0)) (getReference (snx s node 0))
                        False True), True)
      else mark_bottom s node)"

declare mark_bottom.simps [code]

function unlink_levels ::
  "'v skiplist \<Rightarrow> addr \<Rightarrow> nat \<Rightarrow> nat \<Rightarrow> (nat \<Rightarrow> ptr) \<Rightarrow> ('v skiplist \<times> bool) option" where
  "unlink_levels s node level height preds =
     (if level \<le> height
      then (case preds level of
              None \<Rightarrow> None
            | Some p \<Rightarrow>
                if fst (scas s p level (Some node) (getReference (snx s node level)) False False)
                then unlink_levels
                       (snd (scas s p level (Some node) (getReference (snx s node level)) False False))
                       node (Suc level) height preds
                else Some (s, False))
      else Some (s, True))"
  by pat_completeness auto
termination
  by (relation "measure (\<lambda>(s, node, level, height, preds). Suc height - level)") auto

declare unlink_levels.simps [simp del]

partial_function (option) SkipList_remove_loop ::
  "'v skiplist \<Rightarrow> u64 \<Rightarrow> (nat \<Rightarrow> ptr) \<Rightarrow> (nat \<Rightarrow> ptr) \<Rightarrow> (bool \<times> 'v skiplist) option" where
  "SkipList_remove_loop s key preds succs =
     (case SkipList_find s key preds succs of
        None \<Rightarrow> None
      | Some (found, s1, preds1, succs1) \<Rightarrow>
          if \<not> found then Some (False, slog_event LeaveEpoch s1)
          else
            (case succs1 0 of
               None \<Rightarrow> None
             | Some nodeToRemove \<Rightarrow>
                 (case mark_levels s1 nodeToRemove (topLevel (sheap s1 nodeToRemove)) of
                    None \<Rightarrow> None
                  | Some s2 \<Rightarrow>
                      (case mark_bottom s2 nodeToRemove of
                         None \<Rightarrow> None
                       | Some (s3, won) \<Rightarrow>
                           if \<not> won then Some (False, s3)
                           else
                             (case unlink_levels s3 nodeToRemove 0
                                     (topLevel (sheap s3 nodeToRemove)) preds1 of
                                None \<Rightarrow> None
                              | Some (s4, ok) \<Rightarrow>
                                  if \<not> ok then SkipList_remove_loop s4 key preds1 succs1
                                  else Some (True,
                                         slog_event LeaveEpoch
                                           (slog_event (RetireNode nodeToRemove) s4)))))))"

declare SkipList_remove_loop.simps [code]

definition SkipList_remove :: "'v skiplist \<Rightarrow> u64 \<Rightarrow> (bool \<times> 'v skiplist) option" where
  "SkipList_remove s key =
     SkipList_remove_loop (slog_event EnterEpoch s) key (\<lambda>_. None) (\<lambda>_. None)"

text \<open>
  \<open>contains\<close>: \<open>contains_walk\<close> is the \<open>while (true)\<close> of one level, \<open>contains_levels\<close>
  the \<open>for\<close> loop, which starts at \<open>MAX_LEVEL - 1\<close> and keeps \<open>pred\<close> from level to level.
  The function makes no store.
\<close>

partial_function (option) contains_walk ::
  "'v skiplist \<Rightarrow> u64 \<Rightarrow> nat \<Rightarrow> addr \<Rightarrow> ptr \<Rightarrow> (addr \<times> ptr) option" where
  "contains_walk s key level prd cur =
     (case cur of
        None \<Rightarrow> Some (prd, None)
      | Some c \<Rightarrow>
          if getMark (snx s c level) then contains_walk s key level prd (getReference (snx s c level))
          else if skey (sheap s c) < key
          then contains_walk s key level c (getReference (snx s c level))
          else Some (prd, cur))"

declare contains_walk.simps [code]

function contains_levels :: "'v skiplist \<Rightarrow> u64 \<Rightarrow> nat \<Rightarrow> addr \<Rightarrow> ptr option" where
  "contains_levels s key level prd =
     (case contains_walk s key level prd (getReference (snx s prd level)) of
        None \<Rightarrow> None
      | Some (p, c) \<Rightarrow> if level = 0 then Some c else contains_levels s key (level - 1) p)"
  by pat_completeness auto
termination
  by (relation "measure (\<lambda>(s, key, level, prd). level)") auto

declare contains_levels.simps [simp del]

definition SkipList_contains :: "'v skiplist \<Rightarrow> u64 \<Rightarrow> bool option" where
  "SkipList_contains s key =
     (case contains_levels s key (MAX_LEVEL - 1) s_head of
        None \<Rightarrow> None
      | Some None \<Rightarrow> None
      | Some (Some c) \<Rightarrow> Some (skey (sheap s c) = key))"

text \<open>\<open>get\<close>, with the same structure; the result is the \<open>data\<close> pointer or \<open>nullptr\<close>.\<close>

partial_function (option) get_walk ::
  "'v skiplist \<Rightarrow> u64 \<Rightarrow> nat \<Rightarrow> addr \<Rightarrow> ptr \<Rightarrow> (addr \<times> ptr) option" where
  "get_walk s key level prd cur =
     (case cur of
        None \<Rightarrow> Some (prd, None)
      | Some c \<Rightarrow>
          if c = s_tail then Some (prd, cur)
          else if getMark (snx s c level) then get_walk s key level prd (getReference (snx s c level))
          else if skey (sheap s c) < key then get_walk s key level c (getReference (snx s c level))
          else Some (prd, cur))"

declare get_walk.simps [code]

function get_levels :: "'v skiplist \<Rightarrow> u64 \<Rightarrow> nat \<Rightarrow> addr \<Rightarrow> ptr option" where
  "get_levels s key level prd =
     (case get_walk s key level prd (getReference (snx s prd level)) of
        None \<Rightarrow> None
      | Some (p, c) \<Rightarrow> if level = 0 then Some c else get_levels s key (level - 1) p)"
  by pat_completeness auto
termination
  by (relation "measure (\<lambda>(s, key, level, prd). level)") auto

declare get_levels.simps [simp del]

definition SkipList_get :: "'v skiplist \<Rightarrow> u64 \<Rightarrow> 'v option option" where
  "SkipList_get s key =
     (case get_levels s key (MAX_LEVEL - 1) s_head of
        None \<Rightarrow> None
      | Some None \<Rightarrow> Some None
      | Some (Some c) \<Rightarrow>
          Some (if skey (sheap s c) = key \<and> \<not> getMark (snx s c 0) then sdata (sheap s c)
                else None))"

text \<open>\<open>popMin\<close>; it makes no call to \<open>enterEpoch\<close> or \<open>leaveEpoch\<close>.\<close>

partial_function (option) SkipList_popMin :: "'v skiplist \<Rightarrow> ('v option \<times> 'v skiplist) option" where
  "SkipList_popMin s =
     (case getReference (snx s s_head 0) of
        None \<Rightarrow> Some (None, s)
      | Some c \<Rightarrow>
          if c = s_tail then Some (None, s)
          else if getMark (snx s c 0)
          then SkipList_popMin
                 (snd (scas s s_head 0 (Some c) (getReference (snx s c 0)) False False))
          else if fst (scas s c 0 (getReference (snx s c 0)) (getReference (snx s c 0)) False True)
          then (let scc = getReference (snx s c 0);
                    s1 = snd (scas s c 0 scc scc False True);
                    s2 = snd (scas s1 s_head 0 (Some c) scc False False)
                in Some (sdata (sheap s2 c), slog_event (RetireNode c) s2))
          else SkipList_popMin s)"

declare SkipList_popMin.simps [code]



section \<open>States used in the scenarios\<close>

text \<open>
  The list after \<open>add(5, 7)\<close>, at the moment a \<open>remove(5)\<close> has executed
  \<open>curr->next.attemptMark(succ, true)\<close> and not yet the unlinking \<open>compareAndSet\<close>:
  the node of key 5 (address 2) is marked and still the successor of the head.
\<close>

definition list_5_marked :: "nat llist" where
  "list_5_marked =
     (case List_add (List_new 0) 5 7 of
        None \<Rightarrow> List_new 0
      | Some (b, s) \<Rightarrow>
          lset_next s 2 (snd (attemptMark (lnx s 2) (getReference (lnx s 2)) True)))"

text \<open>The list after \<open>add(5, 7)\<close> and \<open>remove(5)\<close>.\<close>

definition list_5_added_removed :: "nat llist" where
  "list_5_added_removed = snd (the (List_remove (snd (the (List_add (List_new 0) 5 7))) 5))"

text \<open>
  A call \<open>add(k, v)\<close> with a \<open>uint64_t\<close> argument \<open>k\<close>: the argument is converted to the
  \<open>int\<close> parameter, which keeps its low 32 bits.
\<close>

definition SkipList_add_u64 ::
  "'v skiplist \<Rightarrow> nat \<Rightarrow> u64 \<Rightarrow> 'v \<Rightarrow> (bool \<times> 'v skiplist) option" where
  "SkipList_add_u64 s height k x = SkipList_add_at s height (ucast k) x"

text \<open>The skip list after \<open>add(1, 10)\<close> with height 1 and \<open>add(2, 20)\<close> with height 0.\<close>

definition skiplist_1_2 :: "nat skiplist" where
  "skiplist_1_2 =
     snd (the (SkipList_add_at (snd (the (SkipList_add_at SkipList_new 1 1 10))) 0 2 20))"

text \<open>
  The loop of main.cpp that empties a queue:
  \<open>while ((val = pq.popMin()) != nullptr) std::cout << *val\<close>; \<open>out\<close> is the list of
  values printed so far.
\<close>

partial_function (option) popMin_drain ::
  "'v skiplist \<Rightarrow> 'v list \<Rightarrow> ('v list \<times> 'v skiplist) option" where
  "popMin_drain s out =
     (case SkipList_popMin s of
        None \<Rightarrow> None
      | Some (None, s') \<Rightarrow> Some (out, s')
      | Some (Some v, s') \<Rightarrow> popMin_drain s' (out @ [v]))"

declare popMin_drain.simps [code]


section \<open>Structural invariants\<close>

text \<open>
  \<open>chain nx c xs d\<close>: starting with the cell content \<open>c\<close>, the unmarked pointers lead
  through the nodes \<open>xs\<close> in this order, and the cell of the last of them (or \<open>c\<close>
  itself) holds \<open>d\<close>; \<open>nx\<close> gives the cell of a node.
\<close>

primrec chain :: "(addr \<Rightarrow> mref) \<Rightarrow> mref \<Rightarrow> addr list \<Rightarrow> mref \<Rightarrow> bool" where
  "chain nx c [] d = (c = d)"
| "chain nx c (x # xs) d = (c = (Some x, False) \<and> chain nx (nx x) xs d)"

text \<open>
  The invariant of the ordered list: from the head the unmarked pointers lead through
  the nodes \<open>xs\<close> to the tail, the keys of \<open>xs\<close> increase strictly and lie below the
  tail's key, and all nodes are allocated and different from the sentinels.
\<close>

definition list_inv :: "'v llist \<Rightarrow> addr list \<Rightarrow> bool" where
  "list_inv s xs \<longleftrightarrow>
     chain (lnx s) (lnx s l_head) xs (Some l_tail, False) \<and>
     lnx s l_tail = (None, False) \<and>
     lkey (lheap s l_head) = 0 \<and> lkey (lheap s l_tail) = - 1 \<and>
     distinct xs \<and> l_head \<notin> set xs \<and> l_tail \<notin> set xs \<and>
     l_tail < lfresh s \<and> (\<forall>x \<in> set xs. x < lfresh s \<and> lkey (lheap s x) \<noteq> - 1) \<and>
     sorted_wrt (<) (map (\<lambda>x. lkey (lheap s x)) xs)"

text \<open>The nodes of a list with keys below \<open>k\<close>, and the others.\<close>

definition lbelow :: "'v llist \<Rightarrow> u64 \<Rightarrow> addr list \<Rightarrow> addr list" where
  "lbelow s k xs = takeWhile (\<lambda>x. lkey (lheap s x) < k) xs"

definition lfrom :: "'v llist \<Rightarrow> u64 \<Rightarrow> addr list \<Rightarrow> addr list" where
  "lfrom s k xs = dropWhile (\<lambda>x. lkey (lheap s x) < k) xs"

text \<open>
  The list states that calls of \<open>add\<close> and \<open>remove\<close> with keys of the user domain
  (strictly between the sentinel keys) produce from a new list.
\<close>

inductive lreach :: "'v llist \<Rightarrow> bool" where
  lreach_new: "lreach (List_new d)"
| lreach_add: "lreach s \<Longrightarrow> 0 < k \<Longrightarrow> k < - 1 \<Longrightarrow> List_add s k v = Some (b, s') \<Longrightarrow> lreach s'"
| lreach_remove: "lreach s \<Longrightarrow> 0 < k \<Longrightarrow> k < - 1 \<Longrightarrow> List_remove s k = Some (b, s') \<Longrightarrow> lreach s'"

text \<open>
  The level-0 invariant of the skip list: from the head the unmarked level-0 pointers
  lead through the nodes \<open>xs\<close> (the live nodes) to the tail, their keys increase
  strictly, and each of them carries a payload.
\<close>

definition level0_inv :: "'v skiplist \<Rightarrow> addr list \<Rightarrow> bool" where
  "level0_inv s xs \<longleftrightarrow>
     chain (\<lambda>a. snx s a 0) (snx s s_head 0) xs (Some s_tail, False) \<and>
     distinct xs \<and> s_head \<notin> set xs \<and> s_tail \<notin> set xs \<and>
     sorted_wrt (<) (map (\<lambda>x. skey (sheap s x)) xs) \<and>
     (\<forall>x \<in> set xs. sdata (sheap s x) \<noteq> None)"

text \<open>
  The invariant of the whole skip list, over the list \<open>zs\<close> of its nodes in key order.
  A node of \<open>zs\<close> is live, or it was marked and unlinked at level 0 by \<open>popMin\<close> and is
  still linked at its higher levels.  A node takes part in level 0 when it is live, and
  in a level above when that level is within its height; at every level the unmarked
  pointers lead from the head through the nodes that take part to the tail.  Among
  nodes of the same key, only the first can be live.
\<close>

definition takes_part :: "'v skiplist \<Rightarrow> nat \<Rightarrow> addr \<Rightarrow> bool" where
  "takes_part s level a =
     (if level = 0 then \<not> getMark (snx s a 0) else level \<le> topLevel (sheap s a))"

definition key_order :: "'v skiplist \<Rightarrow> addr \<Rightarrow> addr \<Rightarrow> bool" where
  "key_order s a b \<longleftrightarrow>
     skey (sheap s a) < skey (sheap s b) \<or>
     skey (sheap s a) = skey (sheap s b) \<and> getMark (snx s b 0)"

definition sl_inv :: "'v skiplist \<Rightarrow> addr list \<Rightarrow> bool" where
  "sl_inv s zs \<longleftrightarrow>
     (\<forall>level \<le> MAX_LEVEL.
        chain (\<lambda>a. snx s a level) (snx s s_head level) (filter (takes_part s level) zs)
          (Some s_tail, False)) \<and>
     (\<forall>level \<le> MAX_LEVEL. snx s s_tail level = (None, False)) \<and>
     skey (sheap s s_tail) = - 1 \<and> topLevel (sheap s s_tail) = MAX_LEVEL \<and>
     distinct zs \<and> s_head \<notin> set zs \<and> s_tail \<notin> set zs \<and> s_tail < sfresh s \<and>
     (\<forall>z \<in> set zs. z < sfresh s \<and> topLevel (sheap s z) \<le> MAX_LEVEL \<and>
                    skey (sheap s z) \<noteq> - 1 \<and> sdata (sheap s z) \<noteq> None) \<and>
     sorted_wrt (key_order s) zs"

text \<open>The nodes of \<open>zs\<close> with keys below \<open>k\<close>, and the others.\<close>

definition sbelow :: "'v skiplist \<Rightarrow> u64 \<Rightarrow> addr list \<Rightarrow> addr list" where
  "sbelow s k zs = takeWhile (\<lambda>z. skey (sheap s z) < k) zs"

definition sfrom :: "'v skiplist \<Rightarrow> u64 \<Rightarrow> addr list \<Rightarrow> addr list" where
  "sfrom s k zs = dropWhile (\<lambda>z. skey (sheap s z) < k) zs"

text \<open>
  Where \<open>find\<close> stops at a level: the last node that takes part with a key below \<open>k\<close>
  (or the head), and the first one with a key not below \<open>k\<close> (or the tail).
\<close>

definition pred_at :: "'v skiplist \<Rightarrow> u64 \<Rightarrow> addr list \<Rightarrow> nat \<Rightarrow> addr" where
  "pred_at s k zs level = last (s_head # filter (takes_part s level) (sbelow s k zs))"

definition succ_at :: "'v skiplist \<Rightarrow> u64 \<Rightarrow> addr list \<Rightarrow> nat \<Rightarrow> addr" where
  "succ_at s k zs level = hd (filter (takes_part s level) (sfrom s k zs) @ [s_tail])"

text \<open>The live keys of a skip list with the invariant over \<open>zs\<close>.\<close>

definition live_keys :: "'v skiplist \<Rightarrow> addr list \<Rightarrow> u64 set" where
  "live_keys s zs = (\<lambda>z. skey (sheap s z)) ` {z \<in> set zs. takes_part s 0 z}"

text \<open>The live nodes of \<open>zs\<close> as pairs of key and value, in the order of \<open>zs\<close>.\<close>

definition live_items :: "'v skiplist \<Rightarrow> addr list \<Rightarrow> (u64 \<times> 'v) list" where
  "live_items s zs =
     map (\<lambda>z. (skey (sheap s z), the (sdata (sheap s z)))) (filter (takes_part s 0) zs)"

text \<open>Two states whose nodes carry the same keys, payloads and heights.\<close>

definition same_nodes :: "'v skiplist \<Rightarrow> 'v skiplist \<Rightarrow> bool" where
  "same_nodes s s' \<longleftrightarrow>
     (\<forall>a. skey (sheap s' a) = skey (sheap s a) \<and> sdata (sheap s' a) = sdata (sheap s a) \<and>
          topLevel (sheap s' a) = topLevel (sheap s a)) \<and>
     sfresh s' = sfresh s"

text \<open>The invariant over \<open>zs\<close> with no marked node among \<open>zs\<close>.\<close>

definition sl_clean :: "'v skiplist \<Rightarrow> addr list \<Rightarrow> bool" where
  "sl_clean s zs \<longleftrightarrow> sl_inv s zs \<and> list_all (takes_part s 0) zs"
section \<open>Unfolding rules for the loops\<close>

text \<open>One conditional equation for each path through a loop body.\<close>

lemma find_walk_null: "find_walk s key prd None = None"
  by (subst find_walk.simps) simp

lemma find_walk_snip:
  "getMark (lnx s c) \<Longrightarrow>
   fst (compareAndSet (lnx s prd) (Some c) (getReference (lnx s c)) False False) \<Longrightarrow>
   find_walk s key prd (Some c) =
   find_walk
     (lset_next s prd (snd (compareAndSet (lnx s prd) (Some c) (getReference (lnx s c)) False False)))
     key prd (getReference (lnx s c))"
  by (subst find_walk.simps) simp

lemma find_walk_retry:
  "getMark (lnx s c) \<Longrightarrow>
   \<not> fst (compareAndSet (lnx s prd) (Some c) (getReference (lnx s c)) False False) \<Longrightarrow>
   find_walk s key prd (Some c) = Some (s, None)"
  by (subst find_walk.simps) simp

lemma find_walk_stop:
  "\<not> getMark (lnx s c) \<Longrightarrow> key \<le> lkey (lheap s c) \<Longrightarrow>
   find_walk s key prd (Some c) = Some (s, Some (prd, c))"
  by (subst find_walk.simps) simp

lemma find_walk_step:
  "\<not> getMark (lnx s c) \<Longrightarrow> \<not> key \<le> lkey (lheap s c) \<Longrightarrow>
   find_walk s key prd (Some c) = find_walk s key c (getReference (lnx s c))"
  by (subst find_walk.simps) simp

lemma Window_find_done:
  "find_walk s key l_head (getReference (lnx s l_head)) = Some (s', Some w) \<Longrightarrow>
   Window_find s key = Some (s', w)"
  by (subst Window_find.simps) simp

lemma List_add_loop_dup:
  "Window_find s key = Some (s1, p, c) \<Longrightarrow> lkey (lheap s1 c) = key \<Longrightarrow>
   List_add_loop s key item = Some (False, s1)"
  by (subst List_add_loop.simps) simp

lemma List_add_loop_ins:
  "Window_find s key = Some (s1, p, c) \<Longrightarrow> lkey (lheap s1 c) \<noteq> key \<Longrightarrow>
   s2 = lset_next (lnew s1 key item) (lfresh s1) (Some c, False) \<Longrightarrow>
   fst (compareAndSet (lnx s2 p) (Some c) (Some (lfresh s1)) False False) \<Longrightarrow>
   List_add_loop s key item =
   Some (True, llog_event LeaveEpoch
     (lset_next s2 p (snd (compareAndSet (lnx s2 p) (Some c) (Some (lfresh s1)) False False))))"
  by (subst List_add_loop.simps) (simp add: Let_def)

lemma List_remove_loop_absent:
  "Window_find s key = Some (s1, p, c) \<Longrightarrow> lkey (lheap s1 c) \<noteq> key \<Longrightarrow>
   List_remove_loop s key = Some (False, llog_event LeaveEpoch s1)"
  by (subst List_remove_loop.simps) simp

lemma List_remove_loop_found:
  "Window_find s key = Some (s1, p, c) \<Longrightarrow> lkey (lheap s1 c) = key \<Longrightarrow>
   fst (attemptMark (lnx s1 c) (getReference (lnx s1 c)) True) \<Longrightarrow>
   s2 = lset_next s1 c (snd (attemptMark (lnx s1 c) (getReference (lnx s1 c)) True)) \<Longrightarrow>
   List_remove_loop s key =
   Some (True, llog_event LeaveEpoch (llog_event (RetireNode c)
     (lset_next s2 p
        (snd (compareAndSet (lnx s2 p) (Some c) (getReference (lnx s1 c)) False False)))))"
  by (subst List_remove_loop.simps) (simp add: Let_def)

lemma List_contains_loop_null: "List_contains_loop s key None = Some False"
  by (subst List_contains_loop.simps) simp

lemma List_contains_loop_stop:
  "key \<le> lkey (lheap s c) \<Longrightarrow>
   List_contains_loop s key (Some c) = Some (lkey (lheap s c) = key \<and> \<not> getMark (lnx s c))"
  by (subst List_contains_loop.simps) simp

lemma List_contains_loop_step:
  "\<not> key \<le> lkey (lheap s c) \<Longrightarrow>
   List_contains_loop s key (Some c) = List_contains_loop s key (getReference (lnx s c))"
  by (subst List_contains_loop.simps) simp

lemma List_get_loop_null: "List_get_loop s key None marked = None"
  by (subst List_get_loop.simps) simp

lemma List_get_loop_stop:
  "\<not> lkey (lheap s c) < key \<Longrightarrow> List_get_loop s key (Some c) marked = Some (c, marked)"
  by (subst List_get_loop.simps) simp

lemma List_get_loop_step:
  "lkey (lheap s c) < key \<Longrightarrow>
   List_get_loop s key (Some c) marked =
   List_get_loop s key (getReference (lnx s c)) (getMark (lnx s c))"
  by (subst List_get_loop.simps) simp

lemmas list_unfold =
  find_walk_null find_walk_snip find_walk_retry find_walk_stop find_walk_step Window_find_done
  List_add_loop_dup List_add_loop_ins List_remove_loop_absent List_remove_loop_found
  List_contains_loop_null List_contains_loop_stop List_contains_loop_step
  List_get_loop_null List_get_loop_stop List_get_loop_step

lemmas list_defs =
  List_add_def List_remove_def List_contains_def List_get_def List_new_def lnew_def
  lset_next_def lnx_def l_head_def l_tail_def llog_event_def getReference_def getMark_def
  compareAndSet_def attemptMark_def


lemma sfind_walk_null: "sfind_walk s key level prd None m0 = None"
  by (subst sfind_walk.simps) simp

lemma sfind_walk_snip:
  "snd (read_succ s c level m0) \<Longrightarrow>
   r = scas s prd level (Some c) (fst (read_succ s c level m0)) False False \<Longrightarrow> fst r \<Longrightarrow>
   sfind_walk s key level prd (Some c) m0 =
   sfind_walk (snd r) key level prd (getReference (snx (snd r) prd level)) True"
  by (subst sfind_walk.simps) (simp add: Let_def)

lemma sfind_walk_retry:
  "snd (read_succ s c level m0) \<Longrightarrow>
   \<not> fst (scas s prd level (Some c) (fst (read_succ s c level m0)) False False) \<Longrightarrow>
   sfind_walk s key level prd (Some c) m0 = Some (s, None)"
  by (subst sfind_walk.simps) (simp add: Let_def)

lemma sfind_walk_step:
  "\<not> snd (read_succ s c level m0) \<Longrightarrow> skey (sheap s c) < key \<Longrightarrow>
   sfind_walk s key level prd (Some c) m0 =
   sfind_walk s key level c (fst (read_succ s c level m0)) False"
  by (subst sfind_walk.simps) (simp add: Let_def)

lemma sfind_walk_stop:
  "\<not> snd (read_succ s c level m0) \<Longrightarrow> \<not> skey (sheap s c) < key \<Longrightarrow>
   sfind_walk s key level prd (Some c) m0 = Some (s, Some (prd, c))"
  by (subst sfind_walk.simps) (simp add: Let_def)

lemma find_levels_retry:
  "sfind_walk s key level s_head (getReference (snx s s_head level)) False = Some (s', None) \<Longrightarrow>
   find_levels s key level preds succs = Some (s', preds, succs, None)"
  by (subst find_levels.simps) simp

lemma find_levels_last:
  "sfind_walk s key 0 s_head (getReference (snx s s_head 0)) False = Some (s', Some (p, c)) \<Longrightarrow>
   find_levels s key 0 preds succs = Some (s', preds(0 := Some p), succs(0 := Some c), Some c)"
  by (subst find_levels.simps) simp

lemma find_levels_step:
  "sfind_walk s key level s_head (getReference (snx s s_head level)) False = Some (s', Some (p, c)) \<Longrightarrow>
   level \<noteq> 0 \<Longrightarrow>
   find_levels s key level preds succs =
   find_levels s' key (level - 1) (preds(level := Some p)) (succs(level := Some c))"
  by (subst find_levels.simps) simp

lemma SkipList_find_done:
  "find_levels s key MAX_LEVEL preds succs = Some (s', preds', succs', Some c) \<Longrightarrow>
   SkipList_find s key preds succs = Some (skey (sheap s' c) = key, s', preds', succs')"
  by (subst SkipList_find.simps) simp

lemma add_link_done:
  "preds level = Some p \<Longrightarrow> r = scas s p level (succs level) (Some node) False False \<Longrightarrow>
   fst r \<Longrightarrow> add_link s key node level preds succs = Some (snd r, preds, succs)"
  by (subst add_link.simps) simp

lemma add_links_step:
  "level \<le> height \<Longrightarrow> add_link s key node level preds succs = Some (s', preds', succs') \<Longrightarrow>
   add_links s key node level height preds succs =
   add_links s' key node (Suc level) height preds' succs'"
  by (subst add_links.simps) simp

lemma add_links_done:
  "\<not> level \<le> height \<Longrightarrow> add_links s key node level height preds succs = Some s"
  by (subst add_links.simps) simp

lemma SkipList_add_loop_dup:
  "SkipList_find s key preds succs = Some (True, s1, preds1, succs1) \<Longrightarrow>
   SkipList_add_loop s key x height newNode preds succs = Some (False, slog_event LeaveEpoch s1)"
  by (subst SkipList_add_loop.simps) simp

lemma SkipList_add_loop_ins:
  "SkipList_find s key preds succs = Some (False, s1, preds1, succs1) \<Longrightarrow>
   s3 = set_levels (snew s1 key (Some x) height) (sfresh s1) succs1 (Suc height) \<Longrightarrow>
   preds1 0 = Some p \<Longrightarrow>
   r = scas s3 p 0 (succs1 0) (Some (sfresh s1)) False False \<Longrightarrow> fst r \<Longrightarrow>
   add_links (snd r) key (sfresh s1) 1 height preds1 succs1 = Some s5 \<Longrightarrow>
   SkipList_add_loop s key x height None preds succs = Some (True, slog_event LeaveEpoch s5)"
  by (subst SkipList_add_loop.simps) (simp add: Let_def)

lemma mark_level_marked:
  "getMark (snx s node level) \<Longrightarrow> mark_level s node level = Some s"
  by (subst mark_level.simps) simp

lemma mark_level_mark:
  "\<not> getMark (snx s node level) \<Longrightarrow>
   r = attemptMark (snx s node level) (getReference (snx s node level)) True \<Longrightarrow> fst r \<Longrightarrow>
   mark_level s node level = Some (sset_next s node level (snd r))"
  by (subst mark_level.simps) simp

lemma mark_levels_step:
  "0 < level \<Longrightarrow> mark_level s node level = Some s' \<Longrightarrow>
   mark_levels s node level = mark_levels s' node (level - 1)"
  by (subst mark_levels.simps) simp

lemma mark_levels_done: "mark_levels s node 0 = Some s"
  by (subst mark_levels.simps) simp

lemma mark_bottom_lost:
  "getMark (snx s node 0) \<Longrightarrow> mark_bottom s node = Some (s, False)"
  by (subst mark_bottom.simps) simp

lemma mark_bottom_won:
  "\<not> getMark (snx s node 0) \<Longrightarrow>
   r = scas s node 0 (getReference (snx s node 0)) (getReference (snx s node 0)) False True \<Longrightarrow>
   fst r \<Longrightarrow> mark_bottom s node = Some (snd r, True)"
  by (subst mark_bottom.simps) simp

lemma unlink_levels_step:
  "level \<le> height \<Longrightarrow> preds level = Some p \<Longrightarrow>
   r = scas s p level (Some node) (getReference (snx s node level)) False False \<Longrightarrow> fst r \<Longrightarrow>
   unlink_levels s node level height preds = unlink_levels (snd r) node (Suc level) height preds"
  by (subst unlink_levels.simps) simp

lemma unlink_levels_fail:
  "level \<le> height \<Longrightarrow> preds level = Some p \<Longrightarrow>
   \<not> fst (scas s p level (Some node) (getReference (snx s node level)) False False) \<Longrightarrow>
   unlink_levels s node level height preds = Some (s, False)"
  by (subst unlink_levels.simps) simp

lemma unlink_levels_done:
  "\<not> level \<le> height \<Longrightarrow> unlink_levels s node level height preds = Some (s, True)"
  by (subst unlink_levels.simps) simp

lemma SkipList_remove_loop_absent:
  "SkipList_find s key preds succs = Some (False, s1, preds1, succs1) \<Longrightarrow>
   SkipList_remove_loop s key preds succs = Some (False, slog_event LeaveEpoch s1)"
  by (subst SkipList_remove_loop.simps) simp

lemma SkipList_remove_loop_found:
  "SkipList_find s key preds succs = Some (True, s1, preds1, succs1) \<Longrightarrow>
   succs1 0 = Some n \<Longrightarrow>
   mark_levels s1 n (topLevel (sheap s1 n)) = Some s2 \<Longrightarrow>
   mark_bottom s2 n = Some (s3, True) \<Longrightarrow>
   unlink_levels s3 n 0 (topLevel (sheap s3 n)) preds1 = Some (s4, True) \<Longrightarrow>
   SkipList_remove_loop s key preds succs =
   Some (True, slog_event LeaveEpoch (slog_event (RetireNode n) s4))"
  by (subst SkipList_remove_loop.simps) simp

lemma contains_walk_null: "contains_walk s key level prd None = Some (prd, None)"
  by (subst contains_walk.simps) simp

lemma contains_walk_skip:
  "getMark (snx s c level) \<Longrightarrow>
   contains_walk s key level prd (Some c) =
   contains_walk s key level prd (getReference (snx s c level))"
  by (subst contains_walk.simps) simp

lemma contains_walk_step:
  "\<not> getMark (snx s c level) \<Longrightarrow> skey (sheap s c) < key \<Longrightarrow>
   contains_walk s key level prd (Some c) =
   contains_walk s key level c (getReference (snx s c level))"
  by (subst contains_walk.simps) simp

lemma contains_walk_stop:
  "\<not> getMark (snx s c level) \<Longrightarrow> \<not> skey (sheap s c) < key \<Longrightarrow>
   contains_walk s key level prd (Some c) = Some (prd, Some c)"
  by (subst contains_walk.simps) simp

lemma contains_levels_last:
  "contains_walk s key 0 prd (getReference (snx s prd 0)) = Some (p, c) \<Longrightarrow>
   contains_levels s key 0 prd = Some c"
  by (subst contains_levels.simps) simp

lemma contains_levels_step:
  "contains_walk s key level prd (getReference (snx s prd level)) = Some (p, c) \<Longrightarrow>
   level \<noteq> 0 \<Longrightarrow> contains_levels s key level prd = contains_levels s key (level - 1) p"
  by (subst contains_levels.simps) simp

lemma get_walk_null: "get_walk s key level prd None = Some (prd, None)"
  by (subst get_walk.simps) simp

lemma get_walk_tail: "c = s_tail \<Longrightarrow> get_walk s key level prd (Some c) = Some (prd, Some c)"
  by (subst get_walk.simps) simp

lemma get_walk_skip:
  "c \<noteq> s_tail \<Longrightarrow> getMark (snx s c level) \<Longrightarrow>
   get_walk s key level prd (Some c) = get_walk s key level prd (getReference (snx s c level))"
  by (subst get_walk.simps) simp

lemma get_walk_step:
  "c \<noteq> s_tail \<Longrightarrow> \<not> getMark (snx s c level) \<Longrightarrow> skey (sheap s c) < key \<Longrightarrow>
   get_walk s key level prd (Some c) = get_walk s key level c (getReference (snx s c level))"
  by (subst get_walk.simps) simp

lemma get_walk_stop:
  "c \<noteq> s_tail \<Longrightarrow> \<not> getMark (snx s c level) \<Longrightarrow> \<not> skey (sheap s c) < key \<Longrightarrow>
   get_walk s key level prd (Some c) = Some (prd, Some c)"
  by (subst get_walk.simps) simp

lemma get_levels_last:
  "get_walk s key 0 prd (getReference (snx s prd 0)) = Some (p, c) \<Longrightarrow>
   get_levels s key 0 prd = Some c"
  by (subst get_levels.simps) simp

lemma get_levels_step:
  "get_walk s key level prd (getReference (snx s prd level)) = Some (p, c) \<Longrightarrow>
   level \<noteq> 0 \<Longrightarrow> get_levels s key level prd = get_levels s key (level - 1) p"
  by (subst get_levels.simps) simp

lemma SkipList_popMin_null:
  "getReference (snx s s_head 0) = None \<Longrightarrow> SkipList_popMin s = Some (None, s)"
  by (subst SkipList_popMin.simps) simp

lemma SkipList_popMin_empty:
  "getReference (snx s s_head 0) = Some s_tail \<Longrightarrow> SkipList_popMin s = Some (None, s)"
  by (subst SkipList_popMin.simps) simp

lemma SkipList_popMin_help:
  "getReference (snx s s_head 0) = Some c \<Longrightarrow> c \<noteq> s_tail \<Longrightarrow> getMark (snx s c 0) \<Longrightarrow>
   SkipList_popMin s =
   SkipList_popMin (snd (scas s s_head 0 (Some c) (getReference (snx s c 0)) False False))"
  by (subst SkipList_popMin.simps) simp

lemma SkipList_popMin_take:
  "getReference (snx s s_head 0) = Some c \<Longrightarrow> c \<noteq> s_tail \<Longrightarrow> \<not> getMark (snx s c 0) \<Longrightarrow>
   scc = getReference (snx s c 0) \<Longrightarrow> r = scas s c 0 scc scc False True \<Longrightarrow> fst r \<Longrightarrow>
   s2 = snd (scas (snd r) s_head 0 (Some c) scc False False) \<Longrightarrow>
   SkipList_popMin s = Some (sdata (sheap s2 c), slog_event (RetireNode c) s2)"
  by (subst SkipList_popMin.simps) (simp add: Let_def)

lemmas skiplist_unfold =
  sfind_walk_null sfind_walk_snip sfind_walk_retry sfind_walk_step sfind_walk_stop
  find_levels_retry find_levels_last find_levels_step SkipList_find_done
  add_link_done add_links_step add_links_done SkipList_add_loop_dup SkipList_add_loop_ins
  mark_level_marked mark_level_mark mark_levels_step mark_levels_done
  mark_bottom_lost mark_bottom_won unlink_levels_step unlink_levels_fail unlink_levels_done
  SkipList_remove_loop_absent SkipList_remove_loop_found
  contains_walk_null contains_walk_skip contains_walk_step contains_walk_stop
  contains_levels_last contains_levels_step
  get_walk_null get_walk_tail get_walk_skip get_walk_step get_walk_stop
  get_levels_last get_levels_step
  SkipList_popMin_null SkipList_popMin_empty SkipList_popMin_help SkipList_popMin_take

lemmas skiplist_defs =
  SkipList_add_at_def SkipList_remove_def SkipList_contains_def SkipList_get_def
  SkipList_new_def snew_def sset_next_def snx_def scas_def read_succ_def s_head_def s_tail_def
  MAX_LEVEL_def slog_event_def getReference_def getMark_def compareAndSet_def attemptMark_def

section \<open>Rules for running the operations on a given state\<close>

text \<open>
  Each loop once more, as one equation in which every recursive call stands in a branch
  of a conditional or of a case distinction on an option.
\<close>

lemma set_levels_pos:
  "0 < n \<Longrightarrow>
   set_levels s a f n = sset_next (set_levels s a f (n - 1)) a (n - 1) (f (n - 1), False)"
  by (cases n) simp_all

lemma Window_find_run:
  "Window_find s key =
     (case find_walk s key l_head (getReference (lnx s l_head)) of
        None \<Rightarrow> None
      | Some r \<Rightarrow>
          (case snd r of None \<Rightarrow> Window_find (fst r) key | Some w \<Rightarrow> Some (fst r, w)))"
  by (subst Window_find.simps) (simp split: option.split prod.split)

lemma List_add_loop_run:
  "List_add_loop s key item =
     (case Window_find s key of
        None \<Rightarrow> None
      | Some r \<Rightarrow>
          if lkey (lheap (fst r) (snd (snd r))) = key then Some (False, fst r)
          else if fst (compareAndSet
                         (lnx (lset_next (lnew (fst r) key item) (lfresh (fst r))
                                 (Some (snd (snd r)), False)) (fst (snd r)))
                         (Some (snd (snd r))) (Some (lfresh (fst r))) False False)
          then Some (True,
                 llog_event LeaveEpoch
                   (lset_next
                      (lset_next (lnew (fst r) key item) (lfresh (fst r))
                         (Some (snd (snd r)), False))
                      (fst (snd r))
                      (snd (compareAndSet
                              (lnx (lset_next (lnew (fst r) key item) (lfresh (fst r))
                                      (Some (snd (snd r)), False)) (fst (snd r)))
                              (Some (snd (snd r))) (Some (lfresh (fst r))) False False))))
          else List_add_loop
                 (lset_next (lnew (fst r) key item) (lfresh (fst r)) (Some (snd (snd r)), False))
                 key item)"
  by (subst List_add_loop.simps) (simp add: Let_def split: option.split prod.split)

lemma List_remove_loop_run:
  "List_remove_loop s key =
     (case Window_find s key of
        None \<Rightarrow> None
      | Some r \<Rightarrow>
          if lkey (lheap (fst r) (snd (snd r))) \<noteq> key
          then Some (False, llog_event LeaveEpoch (fst r))
          else if \<not> fst (attemptMark (lnx (fst r) (snd (snd r)))
                            (getReference (lnx (fst r) (snd (snd r)))) True)
          then List_remove_loop (fst r) key
          else Some (True,
                 llog_event LeaveEpoch
                   (llog_event (RetireNode (snd (snd r)))
                      (lset_next
                         (lset_next (fst r) (snd (snd r))
                            (snd (attemptMark (lnx (fst r) (snd (snd r)))
                                    (getReference (lnx (fst r) (snd (snd r)))) True)))
                         (fst (snd r))
                         (snd (compareAndSet
                                 (lnx (lset_next (fst r) (snd (snd r))
                                         (snd (attemptMark (lnx (fst r) (snd (snd r)))
                                                 (getReference (lnx (fst r) (snd (snd r))))
                                                 True)))
                                    (fst (snd r)))
                                 (Some (snd (snd r)))
                                 (getReference (lnx (fst r) (snd (snd r)))) False False))))))"
  by (subst List_remove_loop.simps) (simp add: Let_def split: option.split prod.split)

lemmas list_eval =
  find_walk.simps Window_find_run List_add_loop_run List_remove_loop_run
  List_contains_loop.simps List_get_loop.simps
  List_add_def List_remove_def List_contains_def List_get_def List_new_def lnew_def
  lset_next_def lnx_def l_head_def l_tail_def llog_event_def getReference_def getMark_def
  compareAndSet_def attemptMark_def

lemma sfind_walk_run:
  "sfind_walk s key level prd cur m0 =
     (case cur of
        None \<Rightarrow> None
      | Some c \<Rightarrow>
          if snd (read_succ s c level m0) then
            (if fst (scas s prd level cur (fst (read_succ s c level m0)) False False)
             then sfind_walk (snd (scas s prd level cur (fst (read_succ s c level m0)) False False))
                    key level prd
                    (getReference
                       (snx (snd (scas s prd level cur (fst (read_succ s c level m0)) False False))
                          prd level))
                    True
             else Some (s, None))
          else if skey (sheap s c) < key
          then sfind_walk s key level c (fst (read_succ s c level m0)) False
          else Some (s, Some (prd, c)))"
  by (subst sfind_walk.simps) (simp add: Let_def split: option.split)

lemma find_levels_run:
  "find_levels s key level preds succs =
     (case sfind_walk s key level s_head (getReference (snx s s_head level)) False of
        None \<Rightarrow> None
      | Some r \<Rightarrow>
          (case snd r of
             None \<Rightarrow> Some (fst r, preds, succs, None)
           | Some w \<Rightarrow>
               if level = 0
               then Some (fst r, preds(level := Some (fst w)), succs(level := Some (snd w)),
                          Some (snd w))
               else find_levels (fst r) key (level - 1) (preds(level := Some (fst w)))
                      (succs(level := Some (snd w)))))"
  by (subst find_levels.simps) (simp split: option.split prod.split)

lemma SkipList_find_run:
  "SkipList_find s key preds succs =
     (case find_levels s key MAX_LEVEL preds succs of
        None \<Rightarrow> None
      | Some r \<Rightarrow>
          (case snd (snd (snd r)) of
             None \<Rightarrow> SkipList_find (fst r) key (fst (snd r)) (fst (snd (snd r)))
           | Some c \<Rightarrow>
               Some (skey (sheap (fst r) c) = key, fst r, fst (snd r), fst (snd (snd r)))))"
  by (subst SkipList_find.simps) (simp split: option.split prod.split)

lemma add_link_run:
  "add_link s key node level preds succs =
     (case preds level of
        None \<Rightarrow> None
      | Some p \<Rightarrow>
          if fst (scas s p level (succs level) (Some node) False False)
          then Some (snd (scas s p level (succs level) (Some node) False False), preds, succs)
          else (case SkipList_find s key preds succs of
                  None \<Rightarrow> None
                | Some r \<Rightarrow>
                    add_link (fst (snd r)) key node level (fst (snd (snd r)))
                      (snd (snd (snd r)))))"
  by (subst add_link.simps) (simp split: option.split prod.split)

lemma add_links_run:
  "add_links s key node level height preds succs =
     (if level \<le> height
      then (case add_link s key node level preds succs of
              None \<Rightarrow> None
            | Some r \<Rightarrow> add_links (fst r) key node (Suc level) height (fst (snd r)) (snd (snd r)))
      else Some s)"
  by (subst add_links.simps) (simp split: option.split prod.split)

lemma SkipList_add_loop_run:
  "SkipList_add_loop s key x height newNode preds succs =
     (case SkipList_find s key preds succs of
        None \<Rightarrow> None
      | Some r \<Rightarrow>
          if fst r then Some (False, slog_event LeaveEpoch (fst (snd r)))
          else
            (case fst (snd (snd r)) 0 of
               None \<Rightarrow> None
             | Some p \<Rightarrow>
                 (case scas
                         (set_levels
                            (case newNode of
                               None \<Rightarrow> snew (fst (snd r)) key (Some x) height
                             | Some n \<Rightarrow> fst (snd r))
                            (case newNode of None \<Rightarrow> sfresh (fst (snd r)) | Some n \<Rightarrow> n)
                            (snd (snd (snd r))) (Suc height))
                         p 0 (snd (snd (snd r)) 0)
                         (Some (case newNode of None \<Rightarrow> sfresh (fst (snd r)) | Some n \<Rightarrow> n))
                         False False of
                    c \<Rightarrow>
                      if \<not> fst c
                      then SkipList_add_loop
                             (set_levels
                                (case newNode of
                                   None \<Rightarrow> snew (fst (snd r)) key (Some x) height
                                 | Some n \<Rightarrow> fst (snd r))
                                (case newNode of None \<Rightarrow> sfresh (fst (snd r)) | Some n \<Rightarrow> n)
                                (snd (snd (snd r))) (Suc height))
                             key x height
                             (Some (case newNode of None \<Rightarrow> sfresh (fst (snd r)) | Some n \<Rightarrow> n))
                             (fst (snd (snd r))) (snd (snd (snd r)))
                      else (case add_links (snd c) key
                                   (case newNode of None \<Rightarrow> sfresh (fst (snd r)) | Some n \<Rightarrow> n)
                                   1 height (fst (snd (snd r))) (snd (snd (snd r))) of
                              None \<Rightarrow> None
                            | Some s5 \<Rightarrow> Some (True, slog_event LeaveEpoch s5)))))"
  by (subst SkipList_add_loop.simps) (simp add: Let_def split: option.split prod.split)

lemma mark_levels_run:
  "mark_levels s node level =
     (if 0 < level
      then (case mark_level s node level of
              None \<Rightarrow> None
            | Some s' \<Rightarrow> mark_levels s' node (level - 1))
      else Some s)"
  by (rule mark_levels.simps)

lemma SkipList_remove_loop_run:
  "SkipList_remove_loop s key preds succs =
     (case SkipList_find s key preds succs of
        None \<Rightarrow> None
      | Some r \<Rightarrow>
          if \<not> fst r then Some (False, slog_event LeaveEpoch (fst (snd r)))
          else
            (case snd (snd (snd r)) 0 of
               None \<Rightarrow> None
             | Some n \<Rightarrow>
                 (case mark_levels (fst (snd r)) n (topLevel (sheap (fst (snd r)) n)) of
                    None \<Rightarrow> None
                  | Some s2 \<Rightarrow>
                      (case mark_bottom s2 n of
                         None \<Rightarrow> None
                       | Some m \<Rightarrow>
                           if \<not> snd m then Some (False, fst m)
                           else
                             (case unlink_levels (fst m) n 0 (topLevel (sheap (fst m) n))
                                     (fst (snd (snd r))) of
                                None \<Rightarrow> None
                              | Some u \<Rightarrow>
                                  if \<not> snd u
                                  then SkipList_remove_loop (fst u) key (fst (snd (snd r)))
                                         (snd (snd (snd r)))
                                  else Some (True,
                                         slog_event LeaveEpoch
                                           (slog_event (RetireNode n) (fst u))))))))"
  by (subst SkipList_remove_loop.simps) (simp split: option.split prod.split)

lemma contains_levels_run:
  "contains_levels s key level prd =
     (case contains_walk s key level prd (getReference (snx s prd level)) of
        None \<Rightarrow> None
      | Some r \<Rightarrow> if level = 0 then Some (snd r) else contains_levels s key (level - 1) (fst r))"
  by (subst contains_levels.simps) (simp split: option.split prod.split)

lemma get_levels_run:
  "get_levels s key level prd =
     (case get_walk s key level prd (getReference (snx s prd level)) of
        None \<Rightarrow> None
      | Some r \<Rightarrow> if level = 0 then Some (snd r) else get_levels s key (level - 1) (fst r))"
  by (subst get_levels.simps) (simp split: option.split prod.split)

lemma popMin_drain_run:
  "popMin_drain s out =
     (case SkipList_popMin s of
        None \<Rightarrow> None
      | Some r \<Rightarrow>
          (case fst r of
             None \<Rightarrow> Some (out, snd r)
           | Some v \<Rightarrow> popMin_drain (snd r) (out @ [v])))"
  by (subst popMin_drain.simps) (simp split: option.split prod.split)

lemmas skiplist_eval =
  sfind_walk_run find_levels_run SkipList_find_run add_link_run add_links_run
  SkipList_add_loop_run mark_level.simps mark_levels_run mark_bottom.simps unlink_levels.simps
  SkipList_remove_loop_run contains_walk.simps contains_levels_run get_walk.simps
  get_levels_run SkipList_popMin.simps popMin_drain_run Let_def set_levels_pos
  SkipList_add_at_def SkipList_add_u64_def SkipList_remove_def SkipList_contains_def
  SkipList_get_def SkipList_new_def snew_def sset_next_def snx_def scas_def read_succ_def
  s_head_def s_tail_def MAX_LEVEL_def slog_event_def getReference_def getMark_def
  compareAndSet_def attemptMark_def

section \<open>Proofs\<close>

subsection \<open>Chains\<close>

lemma chain_append:
  "chain nx c (xs @ ys) d \<longleftrightarrow> (\<exists>e. chain nx c xs e \<and> chain nx e ys d)"
  by (induction xs arbitrary: c) auto

lemma chain_frame:
  "(\<And>x. x \<in> set xs \<Longrightarrow> nx' x = nx x) \<Longrightarrow> chain nx' c xs d = chain nx c xs d"
  by (induction xs arbitrary: c) auto

lemma chain_end: "chain nx (nx a) xs e \<Longrightarrow> e = nx (last (a # xs))"
  by (induction xs arbitrary: a) auto

lemma chain_first: "chain nx c xs (Some t, False) \<Longrightarrow> c = (Some (hd (xs @ [t])), False)"
  by (cases xs) auto

lemma chain_unmarked: "chain nx c xs (Some t, False) \<Longrightarrow> x \<in> set xs \<Longrightarrow> \<not> snd (nx x)"
proof (induction xs arbitrary: c)
  case Nil
  then show ?case by simp
next
  case (Cons y ys)
  from Cons.prems(1) have rest: "chain nx (nx y) ys (Some t, False)" by simp
  show ?case
  proof (cases "x = y")
    case True
    with chain_first [OF rest] show ?thesis by simp
  next
    case False
    with Cons.prems(2) have "x \<in> set ys" by simp
    with Cons.IH [OF rest] show ?thesis .
  qed
qed

text \<open>Redirecting the cell that ends a chain.\<close>

lemma chain_relink:
  "chain nx (nx a) xs e \<Longrightarrow> distinct (a # xs) \<Longrightarrow>
   chain (nx(last (a # xs) := v)) ((nx(last (a # xs) := v)) a) xs v"
proof (induction xs arbitrary: a)
  case Nil
  then show ?case by simp
next
  case (Cons x xs)
  from Cons.prems have step: "nx a = (Some x, False)" and rest: "chain nx (nx x) xs e"
    and dist: "distinct (x # xs)" and neq: "a \<noteq> last (x # xs)"
    by auto
  from Cons.IH [OF rest dist] step neq show ?case by simp
qed

subsection \<open>The ordered list: effect of the store operations\<close>

lemma lnx_lset_next [simp]: "lnx (lset_next s a c) = (lnx s)(a := c)"
  by (auto simp: lnx_def lset_next_def)

lemma lkey_lset_next [simp]: "lkey (lheap (lset_next s a c) b) = lkey (lheap s b)"
  by (simp add: lset_next_def)

lemma ldata_lset_next [simp]: "ldata (lheap (lset_next s a c) b) = ldata (lheap s b)"
  by (simp add: lset_next_def)

lemma lfresh_lset_next [simp]: "lfresh (lset_next s a c) = lfresh s"
  by (simp add: lset_next_def)

lemma llog_lset_next [simp]: "llog (lset_next s a c) = llog s"
  by (simp add: lset_next_def)

lemma lnx_lnew [simp]: "lnx (lnew s k d) = (lnx s)(lfresh s := (None, False))"
  by (auto simp: lnx_def lnew_def)

lemma lkey_lnew [simp]:
  "lkey (lheap (lnew s k d) b) = (if b = lfresh s then k else lkey (lheap s b))"
  by (simp add: lnew_def)

lemma ldata_lnew [simp]:
  "ldata (lheap (lnew s k d) b) = (if b = lfresh s then d else ldata (lheap s b))"
  by (simp add: lnew_def)

lemma lfresh_lnew [simp]: "lfresh (lnew s k d) = Suc (lfresh s)"
  by (simp add: lnew_def)

lemma llog_lnew [simp]: "llog (lnew s k d) = llog s"
  by (simp add: lnew_def)

lemma lnx_llog_event [simp]: "lnx (llog_event e s) = lnx s"
  by (auto simp: lnx_def llog_event_def)

lemma lheap_llog_event [simp]: "lheap (llog_event e s) = lheap s"
  by (simp add: llog_event_def)

lemma lfresh_llog_event [simp]: "lfresh (llog_event e s) = lfresh s"
  by (simp add: llog_event_def)

lemma llog_llog_event [simp]: "llog (llog_event e s) = e # llog s"
  by (simp add: llog_event_def)

lemma list_inv_llog_event [simp]: "list_inv (llog_event e s) xs = list_inv s xs"
  by (simp add: list_inv_def)

lemma compareAndSet_hit:
  "c = (e, m) \<Longrightarrow> compareAndSet c e n m m' = (True, (n, m'))"
  by (simp add: compareAndSet_def getReference_def getMark_def)

lemma attemptMark_hit:
  "attemptMark (e, False) e True = (True, (e, True))"
  by (simp add: attemptMark_def getReference_def getMark_def)

lemma word64_max: "(k :: u64) \<le> - 1"
  by simp

subsection \<open>The ordered list: \<open>find\<close>\<close>

lemma find_walk_chain:
  assumes "chain (lnx s) c ys (Some l_tail, False)"
    and "lnx s l_tail = (None, False)" and "lkey (lheap s l_tail) = - 1"
  shows "find_walk s key p (getReference c) =
         Some (s, Some (last (p # takeWhile (\<lambda>y. lkey (lheap s y) < key) ys),
                        hd (dropWhile (\<lambda>y. lkey (lheap s y) < key) ys @ [l_tail])))"
  using assms(1)
proof (induction ys arbitrary: c p)
  case Nil
  then have "getReference c = Some l_tail" by (simp add: getReference_def)
  with assms(2,3) show ?case
    by (simp add: find_walk_stop getMark_def)
next
  case (Cons y ys)
  from Cons.prems have c: "getReference c = Some y"
    and rest: "chain (lnx s) (lnx s y) ys (Some l_tail, False)"
    by (simp_all add: getReference_def)
  from chain_first [OF rest] have unmarked: "\<not> getMark (lnx s y)"
    by (simp add: getMark_def)
  show ?case
  proof (cases "lkey (lheap s y) < key")
    case True
    then have "\<not> key \<le> lkey (lheap s y)" by simp
    with unmarked have "find_walk s key p (Some y) = find_walk s key y (getReference (lnx s y))"
      by (rule find_walk_step)
    with Cons.IH [OF rest, of y] True c show ?thesis by simp
  next
    case False
    then have "key \<le> lkey (lheap s y)" by simp
    with unmarked have "find_walk s key p (Some y) = Some (s, Some (p, y))"
      by (rule find_walk_stop)
    with False c show ?thesis by simp
  qed
qed

lemma sorted_takeWhile_filter:
  "sorted_wrt (<) (map f xs) \<Longrightarrow> takeWhile (\<lambda>x. f x < (k::u64)) xs = filter (\<lambda>x. f x < k) xs"
proof (induction xs)
  case Nil
  then show ?case by simp
next
  case (Cons x xs)
  show ?case
  proof (cases "f x < k")
    case True
    with Cons show ?thesis by simp
  next
    case False
    with Cons.prems have "\<forall>y \<in> set xs. \<not> f y < k" by auto
    then have "filter (\<lambda>x. f x < k) xs = []" by (simp add: filter_empty_conv)
    with False show ?thesis by simp
  qed
qed

lemma sorted_dropWhile_filter:
  "sorted_wrt (<) (map f xs) \<Longrightarrow>
   dropWhile (\<lambda>x. f x < (k::u64)) xs = filter (\<lambda>x. \<not> f x < k) xs"
proof (induction xs)
  case Nil
  then show ?case by simp
next
  case (Cons x xs)
  show ?case
  proof (cases "f x < k")
    case True
    with Cons show ?thesis by simp
  next
    case False
    with Cons.prems have "\<forall>y \<in> set xs. \<not> f y < k" by auto
    then have "filter (\<lambda>x. \<not> f x < k) xs = xs" by (simp add: filter_id_conv)
    with False show ?thesis by simp
  qed
qed

lemma Window_find_inv:
  assumes "list_inv s xs"
  shows "Window_find s key = Some (s, last (l_head # lbelow s key xs), hd (lfrom s key xs @ [l_tail]))"
proof -
  from assms have "chain (lnx s) (lnx s l_head) xs (Some l_tail, False)"
    and "lnx s l_tail = (None, False)" and "lkey (lheap s l_tail) = - 1"
    by (simp_all add: list_inv_def)
  from find_walk_chain [OF this] show ?thesis
    by (simp add: Window_find_done lbelow_def lfrom_def)
qed

subsection \<open>The ordered list: \<open>add\<close> and \<open>remove\<close>\<close>

lemma list_inv_split:
  fixes key :: u64
  assumes inv: "list_inv s xs"
  defines "as \<equiv> lbelow s key xs" and "bs \<equiv> lfrom s key xs"
  defines "p \<equiv> last (l_head # as)" and "c \<equiv> hd (bs @ [l_tail])"
  shows "xs = as @ bs"
    and "\<forall>a \<in> set as. lkey (lheap s a) < key"
    and "\<forall>b \<in> set bs. key \<le> lkey (lheap s b)"
    and "chain (lnx s) (lnx s l_head) as (Some c, False)"
    and "chain (lnx s) (Some c, False) bs (Some l_tail, False)"
    and "lnx s p = (Some c, False)"
    and "p \<in> set (l_head # as)"
proof -
  let ?f = "\<lambda>x. lkey (lheap s x)"
  from inv have sorted: "sorted_wrt (<) (map ?f xs)"
    and ch: "chain (lnx s) (lnx s l_head) xs (Some l_tail, False)"
    by (simp_all add: list_inv_def)
  show split: "xs = as @ bs"
    by (simp add: as_def bs_def lbelow_def lfrom_def)
  show "\<forall>a \<in> set as. ?f a < key"
    by (auto simp: as_def lbelow_def dest: set_takeWhileD)
  have "bs = filter (\<lambda>x. \<not> ?f x < key) xs"
    unfolding bs_def lfrom_def by (rule sorted_dropWhile_filter [OF sorted])
  then show "\<forall>b \<in> set bs. key \<le> ?f b"
    by auto
  from ch split obtain e where e1: "chain (lnx s) (lnx s l_head) as e"
    and e2: "chain (lnx s) e bs (Some l_tail, False)"
    by (auto simp: chain_append)
  from chain_first [OF e2] have e: "e = (Some c, False)"
    by (simp add: c_def)
  from e1 e show "chain (lnx s) (lnx s l_head) as (Some c, False)" by simp
  from e2 e show "chain (lnx s) (Some c, False) bs (Some l_tail, False)" by simp
  from chain_end [OF e1] e show "lnx s p = (Some c, False)"
    by (simp add: p_def)
  show "p \<in> set (l_head # as)"
    unfolding p_def by (rule last_in_set) simp
qed

lemma word64_max_le: "- 1 \<le> (k :: u64) \<longleftrightarrow> k = - 1"
proof
  assume "- 1 \<le> k"
  then show "k = - 1" by (intro antisym) simp_all
qed simp

lemma l_head_neq_tail [simp]: "l_head \<noteq> l_tail" "l_tail \<noteq> l_head"
  by (simp_all add: l_head_def l_tail_def)

lemma list_inv_head_fresh: "list_inv s xs \<Longrightarrow> l_head < lfresh s"
  by (simp add: list_inv_def l_head_def l_tail_def)

lemma List_add_inv:
  fixes key :: u64
  assumes inv: "list_inv s xs"
  defines "as \<equiv> lbelow s key xs" and "bs \<equiv> lfrom s key xs"
  shows "\<exists>b s'. List_add s key item = Some (b, s') \<and>
           (b \<longleftrightarrow> key \<notin> (\<lambda>x. lkey (lheap s x)) ` set xs \<and> key \<noteq> - 1) \<and>
           (\<forall>x < lfresh s. lkey (lheap s' x) = lkey (lheap s x) \<and>
                           ldata (lheap s' x) = ldata (lheap s x)) \<and>
           (if b then list_inv s' (as @ lfresh s # bs) \<and> lkey (lheap s' (lfresh s)) = key \<and>
                      ldata (lheap s' (lfresh s)) = item
            else list_inv s' xs \<and> lheap s' = lheap s)"
proof -
  let ?f = "\<lambda>x. lkey (lheap s x)"
  define p where "p = last (l_head # as)"
  define c where "c = hd (bs @ [l_tail])"
  define s1 where "s1 = llog_event EnterEpoch s"
  note sp = list_inv_split [OF inv, of key, folded as_def bs_def, folded p_def c_def]
  have inv1: "list_inv s1 xs" using inv by (simp add: s1_def)
  from Window_find_inv [OF inv1, of key]
  have find: "Window_find s1 key = Some (s1, p, c)"
    by (simp add: s1_def p_def c_def as_def bs_def lbelow_def lfrom_def)
  from inv have tail: "lnx s l_tail = (None, False)" "?f l_tail = - 1" "l_tail < lfresh s"
    and dist: "distinct xs" "l_head \<notin> set xs" "l_tail \<notin> set xs"
    and fresh: "\<forall>x \<in> set xs. x < lfresh s" and notmax: "\<forall>x \<in> set xs. ?f x \<noteq> - 1"
    and sorted: "sorted_wrt (<) (map ?f xs)" and head: "?f l_head = 0"
    by (simp_all add: list_inv_def)
  have cin: "bs \<noteq> [] \<Longrightarrow> c \<in> set bs" by (simp add: c_def)
  have member: "key \<in> ?f ` set xs \<longleftrightarrow> bs \<noteq> [] \<and> ?f c = key"
  proof
    assume "key \<in> ?f ` set xs"
    then obtain x where x: "x \<in> set xs" "?f x = key" by auto
    with sp(2) have "x \<notin> set as" by auto
    with x sp(1) have xb: "x \<in> set bs" by auto
    then obtain bs' where bs': "bs = c # bs'" by (cases bs) (auto simp: c_def)
    from sorted sp(1) bs' have "\<forall>y \<in> set bs'. ?f c < ?f y"
      by (auto simp: sorted_wrt_append)
    with xb bs' x(2) sp(3) have "x = c" by (auto simp: not_le [symmetric])
    with x bs' show "bs \<noteq> [] \<and> ?f c = key" by simp
  next
    assume "bs \<noteq> [] \<and> ?f c = key"
    with cin sp(1) show "key \<in> ?f ` set xs" by auto
  qed
  have ctail: "bs = [] \<Longrightarrow> c = l_tail" by (simp add: c_def)
  show ?thesis
  proof (cases "?f c = key")
    case True
    then have "List_add s key item = Some (False, s1)"
      unfolding List_add_def s1_def [symmetric]
      by (intro List_add_loop_dup [OF find]) (simp add: s1_def)
    moreover have "\<not> (key \<notin> ?f ` set xs \<and> key \<noteq> - 1)"
    proof (cases "bs = []")
      case True
      with ctail \<open>?f c = key\<close> tail(2) show ?thesis by simp
    next
      case False
      with member \<open>?f c = key\<close> show ?thesis by simp
    qed
    ultimately show ?thesis using inv1
      by (intro exI [where x = False] exI [where x = s1]) (simp add: s1_def)
  next
    case False
    define n where "n = lfresh s"
    define s2 where "s2 = lset_next (lnew s1 key item) (lfresh s1) (Some c, False)"
    define s3 where "s3 = lset_next s2 p (Some n, False)"
    from sp(7) dist fresh list_inv_head_fresh [OF inv] sp(1)
    have pfresh: "p < lfresh s" by auto
    then have pn: "p \<noteq> n" by (simp add: n_def)
    have nx2: "lnx s2 = (lnx s)(n := (Some c, False))"
      by (simp add: s2_def s1_def n_def)
    with pn sp(6) have hit: "lnx s2 p = (Some c, False)" by simp
    have fresh1: "lfresh s1 = n" by (simp add: n_def s1_def)
    have cas: "compareAndSet (lnx s2 p) (Some c) (Some n) False False = (True, (Some n, False))"
      by (simp add: compareAndSet_hit [OF hit])
    have key1: "lkey (lheap s1 c) \<noteq> key" using False by (simp add: s1_def)
    have "List_add_loop s1 key item = Some (True, llog_event LeaveEpoch s3)"
      by (subst List_add_loop_ins [OF find key1 s2_def]) (simp_all add: fresh1 cas s3_def)
    then have run: "List_add s key item = Some (True, llog_event LeaveEpoch s3)"
      by (simp add: List_add_def s1_def)
    have nx3: "lnx s3 = (lnx s)(n := (Some c, False), p := (Some n, False))"
      by (simp add: s3_def nx2)
    have keynm: "key \<noteq> - 1"
    proof
      assume "key = - 1"
      with sp(3) notmax sp(1) have "bs = []"
        by (cases bs) (auto simp: word64_max_le)
      with ctail tail(2) False \<open>key = - 1\<close> show False by simp
    qed
    have notmem: "key \<notin> ?f ` set xs" using member False by simp
    have nfresh: "n \<notin> set xs" "n \<noteq> l_head" "n \<noteq> l_tail"
      using fresh tail(3) list_inv_head_fresh [OF inv] by (auto simp: n_def)
    have pnotbs: "p \<notin> set bs"
      using sp(7) dist sp(1) by auto
    have keys3: "\<And>x. lkey (lheap s3 x) = (if x = n then key else ?f x)"
      by (simp add: s3_def s2_def s1_def n_def)
    have data3: "\<And>x. ldata (lheap s3 x) = (if x = n then item else ldata (lheap s x))"
      by (simp add: s3_def s2_def s1_def n_def)
    have chain_as: "chain (lnx s3) (lnx s3 l_head) as (Some n, False)"
    proof -
      have "chain ((lnx s)(n := (Some c, False))) (((lnx s)(n := (Some c, False))) l_head) as
              (Some c, False)"
        using sp(4) nfresh sp(1)
        by (subst chain_frame [where nx = "lnx s"]) auto
      from chain_relink [OF this, of "(Some n, False)"] dist sp(1)
      show ?thesis by (simp add: nx3 p_def)
    qed
    have chain_bs: "chain (lnx s3) (Some c, False) bs (Some l_tail, False)"
      using sp(5) nfresh sp(1) pnotbs
      by (subst chain_frame [where nx = "lnx s"]) (auto simp: nx3)
    have "lnx s3 n = (Some c, False)" using pn by (simp add: nx3)
    with chain_as chain_bs
    have ch3: "chain (lnx s3) (lnx s3 l_head) (as @ n # bs) (Some l_tail, False)"
      by (auto simp: chain_append)
    have ptail: "p \<noteq> l_tail" using sp(7) dist sp(1) by auto
    have sorted3: "sorted_wrt (<) (map (\<lambda>x. lkey (lheap s3 x)) (as @ n # bs))"
    proof -
      have "\<forall>b \<in> set bs. key < ?f b"
      proof
        fix b assume "b \<in> set bs"
        with sp(3) have "key \<le> ?f b" by simp
        moreover from \<open>b \<in> set bs\<close> sp(1) notmem have "?f b \<noteq> key" by auto
        ultimately show "key < ?f b" by simp
      qed
      moreover have "sorted_wrt (<) (map ?f (as @ bs))"
        using sorted sp(1) by simp
      ultimately have "sorted_wrt (<) (map ?f as @ key # map ?f bs)"
        using sp(2) by (auto simp: sorted_wrt_append)
      moreover have "map (\<lambda>x. lkey (lheap s3 x)) (as @ n # bs) = map ?f as @ key # map ?f bs"
        using nfresh(1) sp(1) by (auto simp: keys3)
      ultimately show ?thesis by (simp only:)
    qed
    have fr3: "lfresh s3 = Suc (lfresh s)"
      by (simp add: s3_def s2_def s1_def)
    have set3: "set (as @ n # bs) = insert n (set xs)"
      using sp(1) by auto
    have "list_inv s3 (as @ n # bs)"
      unfolding list_inv_def
    proof (intro conjI)
      show "chain (lnx s3) (lnx s3 l_head) (as @ n # bs) (Some l_tail, False)"
        by (rule ch3)
      show "lnx s3 l_tail = (None, False)"
        using tail(1) nfresh ptail by (simp add: nx3)
      show "lkey (lheap s3 l_head) = 0"
        using head nfresh by (simp add: keys3)
      show "lkey (lheap s3 l_tail) = - 1"
        using tail(2) nfresh by (simp add: keys3)
      show "distinct (as @ n # bs)"
        using dist(1) nfresh(1) sp(1) by auto
      show "l_head \<notin> set (as @ n # bs)"
        using dist(2) nfresh(2) by (simp only: set3) auto
      show "l_tail \<notin> set (as @ n # bs)"
        using dist(3) nfresh(3) by (simp only: set3) auto
      show "l_tail < lfresh s3"
        using tail(3) by (simp add: fr3)
      show "\<forall>x \<in> set (as @ n # bs). x < lfresh s3 \<and> lkey (lheap s3 x) \<noteq> - 1"
        using fresh notmax keynm by (simp only: set3) (auto simp: fr3 keys3 n_def)
      show "sorted_wrt (<) (map (\<lambda>x. lkey (lheap s3 x)) (as @ n # bs))"
        by (rule sorted3)
    qed
    with run keynm notmem show ?thesis
      by (intro exI [where x = True] exI [where x = "llog_event LeaveEpoch s3"])
         (simp add: keys3 data3 n_def)
  qed
qed

lemma List_remove_inv:
  fixes key :: u64
  assumes inv: "list_inv s xs" and keynm: "key \<noteq> - 1"
  shows "\<exists>b s'. List_remove s key = Some (b, s') \<and>
           (b \<longleftrightarrow> key \<in> (\<lambda>x. lkey (lheap s x)) ` set xs) \<and>
           (\<forall>x. lkey (lheap s' x) = lkey (lheap s x) \<and> ldata (lheap s' x) = ldata (lheap s x)) \<and>
           list_inv s' (filter (\<lambda>x. lkey (lheap s x) \<noteq> key) xs) \<and>
           (\<not> b \<longrightarrow> lheap s' = lheap s)"
proof -
  let ?f = "\<lambda>x. lkey (lheap s x)"
  define as where "as = lbelow s key xs"
  define bs where "bs = lfrom s key xs"
  define p where "p = last (l_head # as)"
  define c where "c = hd (bs @ [l_tail])"
  define s1 where "s1 = llog_event EnterEpoch s"
  note sp = list_inv_split [OF inv, of key, folded as_def bs_def, folded p_def c_def]
  have inv1: "list_inv s1 xs" using inv by (simp add: s1_def)
  from Window_find_inv [OF inv1, of key]
  have find: "Window_find s1 key = Some (s1, p, c)"
    by (simp add: s1_def p_def c_def as_def bs_def lbelow_def lfrom_def)
  from inv have tail: "lnx s l_tail = (None, False)" "?f l_tail = - 1" "l_tail < lfresh s"
    and dist: "distinct xs" "l_head \<notin> set xs" "l_tail \<notin> set xs"
    and fresh: "\<forall>x \<in> set xs. x < lfresh s" and notmax: "\<forall>x \<in> set xs. ?f x \<noteq> - 1"
    and sorted: "sorted_wrt (<) (map ?f xs)" and head: "?f l_head = 0"
    by (simp_all add: list_inv_def)
  have ctail: "bs = [] \<Longrightarrow> c = l_tail" by (simp add: c_def)
  show ?thesis
  proof (cases "?f c = key")
    case False
    then have "lkey (lheap s1 c) \<noteq> key" by (simp add: s1_def)
    from List_remove_loop_absent [OF find this]
    have run: "List_remove s key = Some (False, llog_event LeaveEpoch s1)"
      by (simp add: List_remove_def s1_def)
    have notmem: "key \<notin> ?f ` set xs"
    proof
      assume "key \<in> ?f ` set xs"
      then obtain x where x: "x \<in> set xs" "?f x = key" by auto
      with sp(2) have "x \<notin> set as" by auto
      with x sp(1) have xb: "x \<in> set bs" by auto
      then obtain bs' where bs': "bs = c # bs'" by (cases bs) (auto simp: c_def)
      from sorted sp(1) bs' have "\<forall>y \<in> set bs'. ?f c < ?f y"
        by (auto simp: sorted_wrt_append)
      with xb bs' x(2) sp(3) have "x = c" by (auto simp: not_le [symmetric])
      with x False show False by simp
    qed
    then have "filter (\<lambda>x. ?f x \<noteq> key) xs = xs"
      by (auto simp: filter_id_conv)
    with run notmem inv show ?thesis
      by (intro exI [where x = False] exI [where x = "llog_event LeaveEpoch s1"])
         (simp add: s1_def)
  next
    case True
    with keynm tail(2) ctail have "bs \<noteq> []" by auto
    then obtain bs' where bs': "bs = c # bs'" by (cases bs) (auto simp: c_def)
    define d where "d = hd (bs' @ [l_tail])"
    from sp(5) bs' have chb: "chain (lnx s) (lnx s c) bs' (Some l_tail, False)" by simp
    from chain_first [OF chb] have nxc: "lnx s c = (Some d, False)" by (simp add: d_def)
    define s2 where "s2 = lset_next s1 c (Some d, True)"
    define s3 where "s3 = lset_next s2 p (Some d, False)"
    have cxs: "c \<in> set xs" using sp(1) bs' by simp
    have pc: "p \<noteq> c" using sp(7) dist sp(1) bs' by auto
    have key1: "lkey (lheap s1 c) = key" using True by (simp add: s1_def)
    have mark: "attemptMark (lnx s1 c) (getReference (lnx s1 c)) True = (True, (Some d, True))"
      by (simp add: s1_def nxc getReference_def attemptMark_hit)
    have hit: "lnx s2 p = (Some c, False)"
      using pc sp(6) by (simp add: s2_def s1_def)
    have ref: "getReference (lnx s1 c) = Some d"
      by (simp add: s1_def nxc getReference_def)
    have s2eq: "s2 = lset_next s1 c (snd (attemptMark (lnx s1 c) (getReference (lnx s1 c)) True))"
      by (simp only: mark s2_def snd_conv)
    have fstm: "fst (attemptMark (lnx s1 c) (getReference (lnx s1 c)) True)"
      by (simp only: mark fst_conv)
    have "List_remove_loop s1 key =
            Some (True, llog_event LeaveEpoch (llog_event (RetireNode c) s3))"
      by (simp only: List_remove_loop_found [OF find key1 fstm s2eq] ref
            compareAndSet_hit [OF hit] s3_def snd_conv)
    then have run: "List_remove s key =
            Some (True, llog_event LeaveEpoch (llog_event (RetireNode c) s3))"
      by (simp add: List_remove_def s1_def)
    have nx3: "lnx s3 = (lnx s)(c := (Some d, True), p := (Some d, False))"
      by (simp add: s3_def s2_def s1_def)
    have keys3: "\<And>x. lkey (lheap s3 x) = ?f x" "\<And>x. ldata (lheap s3 x) = ldata (lheap s x)"
      by (simp_all add: s3_def s2_def s1_def)
    have fr3: "lfresh s3 = lfresh s" by (simp add: s3_def s2_def s1_def)
    have cnotas: "c \<notin> set as" "c \<notin> set bs'" "c \<noteq> l_head" "c \<noteq> l_tail"
      using dist sp(1) bs' by auto
    have pnotbs: "p \<notin> set bs'" "p \<noteq> l_tail"
      using sp(7) dist sp(1) bs' by auto
    have chain_as: "chain (lnx s3) (lnx s3 l_head) as (Some d, False)"
    proof -
      have "chain ((lnx s)(c := (Some d, True))) (((lnx s)(c := (Some d, True))) l_head) as
              (Some c, False)"
        using sp(4) cnotas
        by (subst chain_frame [where nx = "lnx s"]) auto
      from chain_relink [OF this, of "(Some d, False)"] dist sp(1)
      show ?thesis by (simp add: nx3 p_def)
    qed
    have chain_bs: "chain (lnx s3) (Some d, False) bs' (Some l_tail, False)"
      using chb nxc cnotas pnotbs
      by (subst chain_frame [where nx = "lnx s"]) (auto simp: nx3)
    from chain_as chain_bs
    have ch3: "chain (lnx s3) (lnx s3 l_head) (as @ bs') (Some l_tail, False)"
      by (auto simp: chain_append)
    have keyc: "\<forall>y \<in> set bs'. key < ?f y"
      using sorted sp(1) bs' True by (auto simp: sorted_wrt_append)
    have filt: "filter (\<lambda>x. ?f x \<noteq> key) xs = as @ bs'"
    proof -
      have "filter (\<lambda>x. ?f x \<noteq> key) as = as"
        using sp(2) by (auto simp: filter_id_conv)
      moreover have "filter (\<lambda>x. ?f x \<noteq> key) bs' = bs'"
        using keyc by (auto simp: filter_id_conv)
      ultimately show ?thesis using sp(1) bs' True by simp
    qed
    have sub: "set (as @ bs') \<subseteq> set xs" using sp(1) bs' by auto
    have "list_inv s3 (as @ bs')"
      unfolding list_inv_def
    proof (intro conjI)
      show "chain (lnx s3) (lnx s3 l_head) (as @ bs') (Some l_tail, False)"
        by (rule ch3)
      show "lnx s3 l_tail = (None, False)"
        using tail(1) cnotas pnotbs by (simp add: nx3)
      show "lkey (lheap s3 l_head) = 0" using head by (simp add: keys3)
      show "lkey (lheap s3 l_tail) = - 1" using tail(2) by (simp add: keys3)
      show "distinct (as @ bs')" using dist(1) sp(1) bs' by auto
      show "l_head \<notin> set (as @ bs')" using dist(2) sub by blast
      show "l_tail \<notin> set (as @ bs')" using dist(3) sub by blast
      show "l_tail < lfresh s3" using tail(3) by (simp add: fr3)
      show "\<forall>x \<in> set (as @ bs'). x < lfresh s3 \<and> lkey (lheap s3 x) \<noteq> - 1"
        using fresh notmax sub by (auto simp: fr3 keys3)
      show "sorted_wrt (<) (map (\<lambda>x. lkey (lheap s3 x)) (as @ bs'))"
        using sorted sp(1) bs' by (auto simp: keys3 sorted_wrt_append)
    qed
    with run cxs True filt show ?thesis
      by (intro exI [where x = True]
            exI [where x = "llog_event LeaveEpoch (llog_event (RetireNode c) s3)"])
         (auto simp: keys3)
  qed
qed

subsection \<open>The ordered list: reachable states and the reads at the sentinel keys\<close>

lemma list_inv_new: "list_inv (List_new d) []"
  by (simp add: list_inv_def List_new_def l_head_def l_tail_def fun_upd_def)

lemma lreach_inv: "lreach s \<Longrightarrow> \<exists>xs. list_inv s xs"
proof (induction rule: lreach.induct)
  case (lreach_new d)
  show ?case by (rule exI [where x = "[]"]) (rule list_inv_new)
next
  case (lreach_add s k v b s')
  then obtain xs where "list_inv s xs" by blast
  from List_add_inv [OF this, of k v] lreach_add.hyps(4) show ?case
    by (auto split: if_splits)
next
  case (lreach_remove s k b s')
  then obtain xs where xs: "list_inv s xs" by blast
  from lreach_remove.hyps(3) have "k \<noteq> - 1" by auto
  from List_remove_inv [OF xs this] lreach_remove.hyps(4) show ?case
    by auto
qed

lemma List_get_loop_chain:
  assumes "chain (lnx s) c ys (Some l_tail, False)"
    and "\<forall>y \<in> set ys. lkey (lheap s y) < key" and "\<not> lkey (lheap s l_tail) < key"
  shows "List_get_loop s key (getReference c) (getMark c) = Some (l_tail, False)"
  using assms(1,2)
proof (induction ys arbitrary: c)
  case Nil
  with assms(3) show ?case
    by (simp add: getReference_def getMark_def List_get_loop_stop)
next
  case (Cons y ys)
  from Cons.prems have c: "c = (Some y, False)"
    and rest: "chain (lnx s) (lnx s y) ys (Some l_tail, False)"
    and below: "lkey (lheap s y) < key" "\<forall>z \<in> set ys. lkey (lheap s z) < key"
    by simp_all
  from Cons.IH [OF rest below(2)] List_get_loop_step [OF below(1)] c
  show ?case by (simp add: getReference_def)
qed

lemma list_inv_sentinel_reads:
  assumes inv: "list_inv s xs"
  shows "List_contains s 0 = Some True"
    and "List_get s 0 = Some (Some l_head)"
    and "List_get s (- 1) = Some (Some l_tail)"
proof -
  from inv have ch: "chain (lnx s) (lnx s l_head) xs (Some l_tail, False)"
    and head: "lkey (lheap s l_head) = 0" and tail: "lkey (lheap s l_tail) = - 1"
    and notmax: "\<forall>x \<in> set xs. lkey (lheap s x) \<noteq> - 1"
    by (simp_all add: list_inv_def)
  from chain_first [OF ch] have unmarked: "\<not> getMark (lnx s l_head)"
    by (simp add: getMark_def)
  have "(0::u64) \<le> lkey (lheap s l_head)" by simp
  from List_contains_loop_stop [OF this] head unmarked
  show "List_contains s 0 = Some True"
    by (simp add: List_contains_def)
  have "\<not> lkey (lheap s l_head) < 0" by simp
  from List_get_loop_stop [OF this] head
  show "List_get s 0 = Some (Some l_head)"
    by (simp add: List_get_def)
  have below: "\<forall>x \<in> set xs. lkey (lheap s x) < - 1"
    using notmax by (auto simp: word_order.not_eq_extremum)
  have "\<not> lkey (lheap s l_tail) < - 1" by (simp add: tail)
  from List_get_loop_chain [OF ch below this]
  have "List_get_loop s (- 1) (getReference (lnx s l_head)) (getMark (lnx s l_head)) =
          Some (l_tail, False)" .
  moreover have "lkey (lheap s l_head) < - 1"
    by (simp add: head flip: word_order.not_eq_extremum)
  ultimately have "List_get_loop s (- 1) (Some l_head) False = Some (l_tail, False)"
    by (simp add: List_get_loop_step)
  with tail show "List_get s (- 1) = Some (Some l_tail)"
    by (simp add: List_get_def)
qed

subsection \<open>The skip list: effect of the store operations\<close>

lemma snx_sset_next [simp]:
  "snx (sset_next s a l c) b m = (if b = a \<and> m = l then c else snx s b m)"
  by (simp add: snx_def sset_next_def)

lemma skey_sset_next [simp]: "skey (sheap (sset_next s a l c) b) = skey (sheap s b)"
  by (simp add: sset_next_def)

lemma sdata_sset_next [simp]: "sdata (sheap (sset_next s a l c) b) = sdata (sheap s b)"
  by (simp add: sset_next_def)

lemma topLevel_sset_next [simp]: "topLevel (sheap (sset_next s a l c) b) = topLevel (sheap s b)"
  by (simp add: sset_next_def)

lemma sfresh_sset_next [simp]: "sfresh (sset_next s a l c) = sfresh s"
  by (simp add: sset_next_def)

lemma slog_sset_next [simp]: "slog (sset_next s a l c) = slog s"
  by (simp add: sset_next_def)

lemma snx_snew [simp]:
  "snx (snew s k d h) b m = (if b = sfresh s then (None, False) else snx s b m)"
  by (simp add: snx_def snew_def)

lemma skey_snew [simp]:
  "skey (sheap (snew s k d h) b) = (if b = sfresh s then k else skey (sheap s b))"
  by (simp add: snew_def)

lemma sdata_snew [simp]:
  "sdata (sheap (snew s k d h) b) = (if b = sfresh s then d else sdata (sheap s b))"
  by (simp add: snew_def)

lemma topLevel_snew [simp]:
  "topLevel (sheap (snew s k d h) b) = (if b = sfresh s then h else topLevel (sheap s b))"
  by (simp add: snew_def)

lemma sfresh_snew [simp]: "sfresh (snew s k d h) = Suc (sfresh s)"
  by (simp add: snew_def)

lemma slog_snew [simp]: "slog (snew s k d h) = slog s"
  by (simp add: snew_def)

lemma snx_slog_event [simp]: "snx (slog_event e s) = snx s"
  by (intro ext) (simp add: snx_def slog_event_def)

lemma sheap_slog_event [simp]: "sheap (slog_event e s) = sheap s"
  by (simp add: slog_event_def)

lemma sfresh_slog_event [simp]: "sfresh (slog_event e s) = sfresh s"
  by (simp add: slog_event_def)

lemma slog_slog_event [simp]: "slog (slog_event e s) = e # slog s"
  by (simp add: slog_event_def)

lemma scas_hit:
  "snx s a l = (e, m) \<Longrightarrow> scas s a l e n m m' = (True, sset_next s a l (n, m'))"
  by (simp add: scas_def compareAndSet_hit)

lemma s_head_neq_tail [simp]: "s_head \<noteq> s_tail" "s_tail \<noteq> s_head"
  by (simp_all add: s_head_def s_tail_def)

subsection \<open>The skip list: \<open>popMin\<close>\<close>

lemma level0_inv_slog_event [simp]: "level0_inv (slog_event e s) xs = level0_inv s xs"
  by (simp add: level0_inv_def)

lemma SkipList_popMin_nil:
  assumes "level0_inv s []"
  shows "SkipList_popMin s = Some (None, s)"
proof -
  from assms have "getReference (snx s s_head 0) = Some s_tail"
    by (simp add: level0_inv_def getReference_def)
  then show ?thesis by (rule SkipList_popMin_empty)
qed

lemma SkipList_popMin_cons:
  assumes inv: "level0_inv s (x # xs)"
  defines "d \<equiv> hd (xs @ [s_tail])"
  defines "s' \<equiv> slog_event (RetireNode x)
                   (sset_next (sset_next s x 0 (Some d, True)) s_head 0 (Some d, False))"
  shows "SkipList_popMin s = Some (sdata (sheap s x), s')" and "level0_inv s' xs"
proof -
  let ?nx = "\<lambda>a. snx s a 0"
  from inv have hd: "snx s s_head 0 = (Some x, False)"
    and rest: "chain ?nx (snx s x 0) xs (Some s_tail, False)"
    and dist: "distinct (x # xs)" "s_head \<notin> set (x # xs)" "s_tail \<notin> set (x # xs)"
    and sorted: "sorted_wrt (<) (map (\<lambda>x. skey (sheap s x)) (x # xs))"
    and data: "\<forall>y \<in> set (x # xs). sdata (sheap s y) \<noteq> None"
    by (simp_all add: level0_inv_def)
  from chain_first [OF rest] have nxx: "snx s x 0 = (Some d, False)"
    by (simp add: d_def)
  define s1 where "s1 = sset_next s x 0 (Some d, True)"
  have xh: "x \<noteq> s_head" "x \<noteq> s_tail" using dist by auto
  have ref: "getReference (snx s s_head 0) = Some x" "getReference (snx s x 0) = Some d"
    and unmarked: "\<not> getMark (snx s x 0)"
    by (simp_all add: hd nxx getReference_def getMark_def)
  have cas1: "scas s x 0 (Some d) (Some d) False True = (True, s1)"
    by (simp add: scas_hit [OF nxx] s1_def)
  have "snx s1 s_head 0 = (Some x, False)" using xh hd by (simp add: s1_def)
  from scas_hit [OF this]
  have cas2: "scas s1 s_head 0 (Some x) (Some d) False False =
                (True, sset_next s1 s_head 0 (Some d, False))" .
  have won: "fst (scas s x 0 (Some d) (Some d) False True)"
    by (simp add: cas1)
  from SkipList_popMin_take [OF ref(1) xh(2) unmarked ref(2) [symmetric] refl won refl]
  show "SkipList_popMin s = Some (sdata (sheap s x), s')"
    by (simp add: cas1 [unfolded s1_def] cas2 [unfolded s1_def] s'_def)
  have nx': "\<And>a. snx s' a 0 =
      (if a = s_head then (Some d, False) else if a = x then (Some d, True) else snx s a 0)"
    by (simp add: s'_def)
  have "chain (\<lambda>a. snx s' a 0) (snx s x 0) xs (Some s_tail, False)"
    using rest dist by (subst chain_frame [where nx = ?nx]) (auto simp: nx')
  then have ch: "chain (\<lambda>a. snx s' a 0) (snx s' s_head 0) xs (Some s_tail, False)"
    by (simp add: nx' nxx)
  show "level0_inv s' xs"
    unfolding level0_inv_def
  proof (intro conjI)
    show "chain (\<lambda>a. snx s' a 0) (snx s' s_head 0) xs (Some s_tail, False)" by (rule ch)
    show "distinct xs" "s_head \<notin> set xs" "s_tail \<notin> set xs" using dist by auto
    show "sorted_wrt (<) (map (\<lambda>x. skey (sheap s' x)) xs)"
      using sorted by (simp add: s'_def)
    show "\<forall>y \<in> set xs. sdata (sheap s' y) \<noteq> None"
      using data by (simp add: s'_def)
  qed
qed

lemma SkipList_popMin_cons_data:
  assumes "level0_inv s (x # xs)" and "SkipList_popMin s = Some (v, s')"
  shows "\<forall>y. sdata (sheap s' y) = sdata (sheap s y)"
  using SkipList_popMin_cons(1) [OF assms(1)] assms(2) by auto

lemma popMin_drain_inv:
  assumes "level0_inv s xs"
  shows "\<exists>s'. popMin_drain s out = Some (out @ map (\<lambda>x. the (sdata (sheap s x))) xs, s') \<and>
              level0_inv s' []"
  using assms
proof (induction xs arbitrary: s out)
  case Nil
  from SkipList_popMin_nil [OF Nil] Nil show ?case
    by (subst popMin_drain.simps) simp
next
  case (Cons x xs)
  from SkipList_popMin_cons [OF Cons.prems]
  obtain s1 where pop: "SkipList_popMin s = Some (sdata (sheap s x), s1)"
    and inv1: "level0_inv s1 xs" by blast
  from Cons.prems obtain v where v: "sdata (sheap s x) = Some v"
    by (auto simp: level0_inv_def)
  from SkipList_popMin_cons_data [OF Cons.prems pop]
  have same: "map (\<lambda>x. the (sdata (sheap s1 x))) xs = map (\<lambda>x. the (sdata (sheap s x))) xs"
    by simp
  from Cons.IH [OF inv1, of "out @ [v]"] obtain s' where
    "popMin_drain s1 (out @ [v]) = Some ((out @ [v]) @ map (\<lambda>x. the (sdata (sheap s1 x))) xs, s')"
    and "level0_inv s' []" by blast
  with pop v same show ?case
    by (subst popMin_drain.simps) simp
qed

subsection \<open>The skip list: \<open>find\<close>\<close>

lemma snx_set_levels [simp]:
  "snx (set_levels s a f n) b l = (if b = a \<and> l < n then (f l, False) else snx s b l)"
  by (induction n) (auto simp: less_Suc_eq)

lemma skey_set_levels [simp]: "skey (sheap (set_levels s a f n) b) = skey (sheap s b)"
  by (induction n) auto

lemma sdata_set_levels [simp]: "sdata (sheap (set_levels s a f n) b) = sdata (sheap s b)"
  by (induction n) auto

lemma topLevel_set_levels [simp]: "topLevel (sheap (set_levels s a f n) b) = topLevel (sheap s b)"
  by (induction n) auto

lemma sfresh_set_levels [simp]: "sfresh (set_levels s a f n) = sfresh s"
  by (induction n) auto

lemma slog_set_levels [simp]: "slog (set_levels s a f n) = slog s"
  by (induction n) auto

lemma sfind_walk_chain:
  assumes "chain (\<lambda>a. snx s a level) c ys (Some s_tail, False)"
    and "\<forall>y \<in> set ys. level \<le> topLevel (sheap s y)"
    and "snx s s_tail level = (None, False)" and "level \<le> topLevel (sheap s s_tail)"
    and "skey (sheap s s_tail) = - 1"
  shows "sfind_walk s key level p (getReference c) False =
         Some (s, Some (last (p # takeWhile (\<lambda>y. skey (sheap s y) < key) ys),
                        hd (dropWhile (\<lambda>y. skey (sheap s y) < key) ys @ [s_tail])))"
  using assms(1,2)
proof (induction ys arbitrary: c p)
  case Nil
  then have c: "getReference c = Some s_tail" by (simp add: getReference_def)
  have "\<not> snd (read_succ s s_tail level False)"
    using assms(3,4) by (simp add: read_succ_def)
  moreover have "\<not> skey (sheap s s_tail) < key"
    by (simp add: assms(5))
  ultimately show ?case
    by (simp add: c sfind_walk_stop)
next
  case (Cons y ys)
  from Cons.prems have c: "getReference c = Some y"
    and rest: "chain (\<lambda>a. snx s a level) (snx s y level) ys (Some s_tail, False)"
    and lv: "level \<le> topLevel (sheap s y)" "\<forall>z \<in> set ys. level \<le> topLevel (sheap s z)"
    by (simp_all add: getReference_def)
  from chain_first [OF rest] lv(1)
  have rd: "read_succ s y level False = snx s y level" "\<not> snd (read_succ s y level False)"
    by (simp_all add: read_succ_def)
  show ?case
  proof (cases "skey (sheap s y) < key")
    case True
    from sfind_walk_step [OF rd(2) True, of p] rd(1)
    have "sfind_walk s key level p (Some y) False =
            sfind_walk s key level y (getReference (snx s y level)) False"
      by (simp add: getReference_def)
    with Cons.IH [OF rest lv(2), of y] True c show ?thesis by simp
  next
    case False
    from sfind_walk_stop [OF rd(2) False, of p] False c show ?thesis by simp
  qed
qed

lemma sl_invD:
  assumes "sl_inv s zs"
  shows "level \<le> MAX_LEVEL \<Longrightarrow>
         chain (\<lambda>a. snx s a level) (snx s s_head level) (filter (takes_part s level) zs)
           (Some s_tail, False)"
    and "level \<le> MAX_LEVEL \<Longrightarrow> snx s s_tail level = (None, False)"
    and "skey (sheap s s_tail) = - 1" and "topLevel (sheap s s_tail) = MAX_LEVEL"
    and "distinct zs" and "s_head \<notin> set zs" and "s_tail \<notin> set zs" and "s_tail < sfresh s"
    and "z \<in> set zs \<Longrightarrow> z < sfresh s"
    and "z \<in> set zs \<Longrightarrow> topLevel (sheap s z) \<le> MAX_LEVEL"
    and "z \<in> set zs \<Longrightarrow> skey (sheap s z) \<noteq> - 1"
    and "z \<in> set zs \<Longrightarrow> sdata (sheap s z) \<noteq> None"
    and "sorted_wrt (key_order s) zs"
  using assms unfolding sl_inv_def by blast+


lemma key_order_le: "key_order s a b \<Longrightarrow> skey (sheap s a) \<le> skey (sheap s b)"
  by (auto simp: key_order_def)

lemma takeWhile_none: "\<forall>x \<in> set xs. \<not> P x \<Longrightarrow> takeWhile P xs = []"
  by (cases xs) auto

lemma dropWhile_none: "\<forall>x \<in> set xs. \<not> P x \<Longrightarrow> dropWhile P xs = xs"
  by (cases xs) auto

lemma sorted_from_not_below:
  assumes "sorted_wrt (key_order s) zs"
  shows "\<forall>b \<in> set (sfrom s k zs). \<not> skey (sheap s b) < k"
proof -
  let ?P = "\<lambda>z. skey (sheap s z) < k"
  from assms have "\<forall>b \<in> set (dropWhile ?P zs). \<not> ?P b"
  proof (induction zs)
    case Nil
    show ?case by simp
  next
    case (Cons z zs)
    from Cons.prems have sorted: "sorted_wrt (key_order s) zs"
      and first: "\<forall>y \<in> set zs. key_order s z y"
      by simp_all
    show ?case
    proof (cases "?P z")
      case True
      then have "dropWhile ?P (z # zs) = dropWhile ?P zs" by simp
      with Cons.IH [OF sorted] show ?thesis by (simp only:)
    next
      case False
      have rest: "\<forall>y \<in> set zs. \<not> ?P y"
      proof
        fix y assume "y \<in> set zs"
        with first have "key_order s z y" by simp
        then have "skey (sheap s z) \<le> skey (sheap s y)" by (rule key_order_le)
        moreover from False have "k \<le> skey (sheap s z)" by (simp add: not_less)
        ultimately have "k \<le> skey (sheap s y)" by (rule order_trans [rotated])
        then show "\<not> ?P y" by (simp add: not_less)
      qed
      from False have "dropWhile ?P (z # zs) = z # zs" by simp
      with False rest show ?thesis by (simp only: set_simps) blast
    qed
  qed
  then show ?thesis by (simp only: sfrom_def)
qed

lemma split_takeWhile_filter:
  assumes "\<forall>a \<in> set as. P a" and "\<forall>b \<in> set bs. \<not> P b"
  shows "takeWhile P (filter Q as @ filter Q bs) = filter Q as"
proof -
  have "takeWhile P (filter Q as @ filter Q bs) = filter Q as @ takeWhile P (filter Q bs)"
    using assms(1) by (intro takeWhile_append2) simp
  moreover have "takeWhile P (filter Q bs) = []"
    using assms(2) by (intro takeWhile_none) simp
  ultimately show ?thesis by simp
qed

lemma split_dropWhile_filter:
  assumes "\<forall>a \<in> set as. P a" and "\<forall>b \<in> set bs. \<not> P b"
  shows "dropWhile P (filter Q as @ filter Q bs) = filter Q bs"
proof -
  have "dropWhile P (filter Q as @ filter Q bs) = dropWhile P (filter Q bs)"
    using assms(1) by (intro dropWhile_append2) simp
  moreover have "dropWhile P (filter Q bs) = filter Q bs"
    using assms(2) by (intro dropWhile_none) simp
  ultimately show ?thesis by simp
qed

lemma sl_inv_level:
  fixes key :: u64
  assumes inv: "sl_inv s zs" and le: "level \<le> MAX_LEVEL"
  defines "as \<equiv> sbelow s key zs" and "bs \<equiv> sfrom s key zs"
  defines "p \<equiv> pred_at s key zs level" and "c \<equiv> succ_at s key zs level"
  shows "zs = as @ bs"
    and "\<forall>a \<in> set as. skey (sheap s a) < key"
    and "\<forall>b \<in> set bs. \<not> skey (sheap s b) < key"
    and "chain (\<lambda>a. snx s a level) (snx s s_head level) (filter (takes_part s level) as)
           (Some c, False)"
    and "chain (\<lambda>a. snx s a level) (Some c, False) (filter (takes_part s level) bs)
           (Some s_tail, False)"
    and "snx s p level = (Some c, False)"
    and "p \<in> set (s_head # filter (takes_part s level) as)"
    and "sfind_walk s key level s_head (getReference (snx s s_head level)) False =
           Some (s, Some (p, c))"
proof -
  let ?tp = "takes_part s level" and ?nx = "\<lambda>a. snx s a level"
  let ?P = "\<lambda>z. skey (sheap s z) < key"
  note ch = sl_invD(1) [OF inv le]
  note tail = sl_invD(2) [OF inv le] sl_invD(3,4) [OF inv]
  note sorted = sl_invD(13) [OF inv]
  show split: "zs = as @ bs"
    by (simp add: as_def bs_def sbelow_def sfrom_def)
  show below: "\<forall>a \<in> set as. ?P a"
    by (auto simp: as_def sbelow_def dest: set_takeWhileD)
  show above: "\<forall>b \<in> set bs. \<not> ?P b"
    unfolding bs_def by (rule sorted_from_not_below [OF sorted])
  have "filter ?tp zs = filter ?tp as @ filter ?tp bs"
    by (subst split) simp
  with ch have ch': "chain ?nx (?nx s_head) (filter ?tp as @ filter ?tp bs) (Some s_tail, False)"
    by simp
  then obtain e where e1: "chain ?nx (?nx s_head) (filter ?tp as) e"
    and e2: "chain ?nx e (filter ?tp bs) (Some s_tail, False)"
    by (auto simp: chain_append)
  from chain_first [OF e2] have e: "e = (Some c, False)"
    by (simp add: c_def succ_at_def bs_def)
  from e1 e show "chain ?nx (?nx s_head) (filter ?tp as) (Some c, False)" by simp
  from e2 e show "chain ?nx (Some c, False) (filter ?tp bs) (Some s_tail, False)" by simp
  from chain_end [OF e1] e show "snx s p level = (Some c, False)"
    by (simp add: p_def pred_at_def as_def)
  show "p \<in> set (s_head # filter ?tp as)"
    unfolding p_def pred_at_def as_def [symmetric] by (rule last_in_set) simp
  have lv: "\<forall>y \<in> set (filter ?tp as @ filter ?tp bs). level \<le> topLevel (sheap s y)"
    by (cases "level = 0") (auto simp: takes_part_def)
  from tail(3) le have "level \<le> topLevel (sheap s s_tail)" by simp
  from sfind_walk_chain [OF ch' lv tail(1) this tail(2), of key s_head]
  have "sfind_walk s key level s_head (getReference (snx s s_head level)) False =
          Some (s, Some (last (s_head # filter ?tp as), hd (filter ?tp bs @ [s_tail])))"
    by (simp only: split_takeWhile_filter [OF below above] split_dropWhile_filter [OF below above])
  then show "sfind_walk s key level s_head (getReference (snx s s_head level)) False =
          Some (s, Some (p, c))"
    by (simp only: p_def c_def pred_at_def succ_at_def as_def bs_def)
qed

lemma find_levels_inv:
  assumes inv: "sl_inv s zs" and le: "level \<le> MAX_LEVEL"
  shows "find_levels s key level preds succs =
         Some (s, (\<lambda>l. if l \<le> level then Some (pred_at s key zs l) else preds l),
                  (\<lambda>l. if l \<le> level then Some (succ_at s key zs l) else succs l),
                  Some (succ_at s key zs 0))"
  using le
proof (induction level arbitrary: preds succs)
  case 0
  have "preds(0 := Some (pred_at s key zs 0)) =
          (\<lambda>l. if l \<le> 0 then Some (pred_at s key zs l) else preds l)"
    "succs(0 := Some (succ_at s key zs 0)) =
          (\<lambda>l. if l \<le> 0 then Some (succ_at s key zs l) else succs l)"
    by (auto simp: fun_eq_iff)
  with find_levels_last [OF sl_inv_level(8) [OF inv 0], of key preds succs]
  show ?case by simp
next
  case (Suc n)
  then have n: "n \<le> MAX_LEVEL" by simp
  have step: "find_levels s key (Suc n) preds succs =
          find_levels s key n (preds(Suc n := Some (pred_at s key zs (Suc n))))
            (succs(Suc n := Some (succ_at s key zs (Suc n))))"
    using find_levels_step [OF sl_inv_level(8) [OF inv Suc.prems], of key preds succs]
    by simp
  have fe: "(\<lambda>l. if l \<le> n then Some (pred_at s key zs l)
                 else (preds(Suc n := Some (pred_at s key zs (Suc n)))) l) =
            (\<lambda>l. if l \<le> Suc n then Some (pred_at s key zs l) else preds l)"
    "(\<lambda>l. if l \<le> n then Some (succ_at s key zs l)
                 else (succs(Suc n := Some (succ_at s key zs (Suc n)))) l) =
            (\<lambda>l. if l \<le> Suc n then Some (succ_at s key zs l) else succs l)"
    by (auto simp: fun_eq_iff le_Suc_eq)
  show ?case
    by (simp only: step Suc.IH [OF n] fe)
qed

lemma SkipList_find_inv:
  assumes inv: "sl_inv s zs"
  shows "SkipList_find s key preds succs =
         Some (skey (sheap s (succ_at s key zs 0)) = key, s,
               (\<lambda>l. if l \<le> MAX_LEVEL then Some (pred_at s key zs l) else preds l),
               (\<lambda>l. if l \<le> MAX_LEVEL then Some (succ_at s key zs l) else succs l))"
  by (rule SkipList_find_done [OF find_levels_inv [OF inv order_refl]])

subsection \<open>Inserting into and deleting from a chain\<close>

lemma chain_insert:
  assumes ch: "chain nx (nx a) (xs @ ys) (Some t, False)"
    and dist: "distinct (a # xs @ ys)" and fresh: "n \<notin> set (a # xs @ ys)"
  defines "nx' \<equiv> nx(n := (Some (hd (ys @ [t])), False), last (a # xs) := (Some n, False))"
  shows "chain nx' (nx' a) (xs @ n # ys) (Some t, False)"
proof -
  let ?p = "last (a # xs)" and ?c = "hd (ys @ [t])"
  from ch obtain e where e1: "chain nx (nx a) xs e" and e2: "chain nx e ys (Some t, False)"
    by (auto simp: chain_append)
  from chain_first [OF e2] have e: "e = (Some ?c, False)" .
  have pin: "?p \<in> set (a # xs)" by (rule last_in_set) simp
  with fresh have pn: "?p \<noteq> n" by auto
  from pin dist have pys: "?p \<notin> set ys" by auto
  let ?nx1 = "nx(n := (Some ?c, False))"
  have "chain ?nx1 (?nx1 a) xs e"
    using e1 fresh by (subst chain_frame [where nx = nx]) auto
  from chain_relink [OF this, of "(Some n, False)"] dist
  have part1: "chain nx' (nx' a) xs (Some n, False)"
    by (simp add: nx'_def)
  have "chain nx' e ys (Some t, False)"
    using e2 fresh pys by (subst chain_frame [where nx = nx]) (auto simp: nx'_def)
  moreover have "nx' n = e" using pn by (simp add: nx'_def e)
  ultimately have "chain nx' (Some n, False) (n # ys) (Some t, False)" by simp
  with part1 show ?thesis by (auto simp: chain_append)
qed

lemma chain_delete:
  fixes v :: mref
  assumes ch: "chain nx (nx a) (xs @ c # ys) (Some t, False)"
    and dist: "distinct (a # xs @ c # ys)"
  defines "nx' \<equiv> nx(c := v, last (a # xs) := (Some (hd (ys @ [t])), False))"
  shows "chain nx' (nx' a) (xs @ ys) (Some t, False)"
proof -
  let ?p = "last (a # xs)" and ?d = "hd (ys @ [t])"
  from ch obtain e where e1: "chain nx (nx a) xs e"
    and e2: "chain nx (nx c) ys (Some t, False)"
    by (auto simp: chain_append)
  have pin: "?p \<in> set (a # xs)" by (rule last_in_set) simp
  with dist have pc: "?p \<noteq> c" and pys: "?p \<notin> set ys" by auto
  let ?nx1 = "nx(c := v)"
  have "chain ?nx1 (?nx1 a) xs e"
    using e1 dist by (subst chain_frame [where nx = nx]) auto
  from chain_relink [OF this, of "(Some ?d, False)"] dist
  have part1: "chain nx' (nx' a) xs (Some ?d, False)"
    by (simp add: nx'_def)
  from chain_first [OF e2] have "nx c = (Some ?d, False)" .
  with e2 have "chain nx (Some ?d, False) ys (Some t, False)" by simp
  then have "chain nx' (Some ?d, False) ys (Some t, False)"
    using dist pys by (subst chain_frame [where nx = nx]) (auto simp: nx'_def)
  with part1 show ?thesis by (auto simp: chain_append)
qed

subsection \<open>The skip list: linking a new node\<close>

lemma same_nodes_refl [simp]: "same_nodes s s"
  by (simp add: same_nodes_def)

lemma same_nodes_trans: "same_nodes s s' \<Longrightarrow> same_nodes s' s'' \<Longrightarrow> same_nodes s s''"
  by (simp add: same_nodes_def)

lemma same_nodes_sset_next [simp]: "same_nodes s (sset_next s a l c)"
  by (simp add: same_nodes_def)

lemma same_nodes_slog_event [simp]: "same_nodes s (slog_event e s)"
  by (simp add: same_nodes_def)

lemma add_links_inv:
  assumes "\<forall>l. level \<le> l \<and> l \<le> h \<longrightarrow> (\<exists>p. preds l = Some p \<and> snx s p l = (succs l, False))"
  shows "\<exists>s'. add_links s key n level h preds succs = Some s' \<and>
           (\<forall>a l. snx s' a l =
              (if level \<le> l \<and> l \<le> h \<and> preds l = Some a then (Some n, False) else snx s a l)) \<and>
           same_nodes s s' \<and> slog s' = slog s"
  using assms
proof (induction "Suc h - level" arbitrary: s level)
  case 0
  then have "\<not> level \<le> h" by simp
  then show ?case by (auto simp: add_links_done)
next
  case (Suc m)
  from Suc.hyps(2) have le: "level \<le> h" by simp
  with Suc.prems obtain p where p: "preds level = Some p" "snx s p level = (succs level, False)"
    by blast
  define s1 where "s1 = sset_next s p level (Some n, False)"
  have cas: "scas s p level (succs level) (Some n) False False = (True, s1)"
    by (simp add: scas_hit [OF p(2)] s1_def)
  have link: "add_link s key n level preds succs = Some (s1, preds, succs)"
    using add_link_done [where preds = preds and level = level and p = p and s = s
        and succs = succs and node = n and key = key
        and r = "scas s p level (succs level) (Some n) False False"] p(1)
    by (simp add: cas)
  have step: "add_links s key n level h preds succs = add_links s1 key n (Suc level) h preds succs"
    by (rule add_links_step [OF le link])
  have m: "m = Suc h - Suc level" using Suc.hyps(2) by simp
  have pre: "\<forall>l. Suc level \<le> l \<and> l \<le> h \<longrightarrow>
               (\<exists>p. preds l = Some p \<and> snx s1 p l = (succs l, False))"
    using Suc.prems by (auto simp: s1_def)
  from Suc.hyps(1) [OF m pre] obtain s' where
    run: "add_links s1 key n (Suc level) h preds succs = Some s'"
    and nx: "\<forall>a l. snx s' a l =
              (if Suc level \<le> l \<and> l \<le> h \<and> preds l = Some a then (Some n, False)
               else snx s1 a l)"
    and same: "same_nodes s1 s'" and log: "slog s' = slog s1"
    by blast
  have "\<forall>a l. snx s' a l =
          (if level \<le> l \<and> l \<le> h \<and> preds l = Some a then (Some n, False) else snx s a l)"
  proof (intro allI)
    fix a l
    show "snx s' a l =
          (if level \<le> l \<and> l \<le> h \<and> preds l = Some a then (Some n, False) else snx s a l)"
    proof (cases "l = level")
      case True
      with nx p(1) le show ?thesis by (auto simp: s1_def)
    next
      case False
      then have "Suc level \<le> l \<longleftrightarrow> level \<le> l" by auto
      with nx False show ?thesis by (simp add: s1_def)
    qed
  qed
  moreover have "same_nodes s s'"
    using same by (simp add: s1_def same_nodes_def)
  ultimately show ?case using run step log by (simp add: s1_def)
qed

subsection \<open>The skip list: the invariant after an insertion\<close>

lemma sl_inv_head_fresh: "sl_inv s zs \<Longrightarrow> s_head < sfresh s"
  using sl_invD(8) [of s zs] by (simp add: s_head_def s_tail_def)

lemma sl_inv_split:
  assumes "sl_inv s zs"
  shows "zs = sbelow s k zs @ sfrom s k zs"
    and "\<forall>a \<in> set (sbelow s k zs). skey (sheap s a) < k"
    and "\<forall>b \<in> set (sfrom s k zs). \<not> skey (sheap s b) < k"
  using sl_inv_level(1-3) [OF assms, of 0 k] by simp_all

lemma pred_at_cases:
  assumes "sl_inv s zs"
  shows "pred_at s k zs l = s_head \<or> pred_at s k zs l \<in> set (sbelow s k zs)"
proof -
  have "pred_at s k zs l \<in> set (s_head # filter (takes_part s l) (sbelow s k zs))"
    unfolding pred_at_def by (rule last_in_set) simp
  then show ?thesis by auto
qed

lemma sl_inv_found_iff:
  assumes inv: "sl_inv s zs"
  shows "skey (sheap s (succ_at s k zs 0)) = k \<longleftrightarrow> k \<in> live_keys s zs \<or> k = - 1"
proof -
  let ?K = "\<lambda>z. skey (sheap s z)"
  define as where "as = sbelow s k zs"
  define bs where "bs = sfrom s k zs"
  define fb where "fb = filter (takes_part s 0) bs"
  note sp = sl_inv_split [OF inv, of k, folded as_def bs_def]
  have c: "succ_at s k zs 0 = hd (fb @ [s_tail])"
    by (simp add: succ_at_def fb_def bs_def)
  note tailkey = sl_invD(3) [OF inv]
  have notmax: "\<And>z. z \<in> set zs \<Longrightarrow> ?K z \<noteq> - 1" by (rule sl_invD(11) [OF inv])
  have sorted: "sorted_wrt (key_order s) (as @ bs)"
    using sl_invD(13) [OF inv] sp(1) by simp
  show ?thesis
  proof (cases fb)
    case Nil
    have "k \<notin> live_keys s zs"
    proof
      assume "k \<in> live_keys s zs"
      then obtain z where z: "z \<in> set zs" "takes_part s 0 z" "?K z = k"
        by (auto simp: live_keys_def)
      with sp(2) have "z \<notin> set as" by auto
      with z(1) have "z \<in> set bs" by (subst (asm) sp(1)) simp
      with z(2) have "z \<in> set fb" by (simp add: fb_def)
      with Nil show False by simp
    qed
    with Nil c tailkey show ?thesis by auto
  next
    case (Cons c' fb')
    then have c': "succ_at s k zs 0 = c'" by (simp add: c)
    from Cons have "c' \<in> set fb" by simp
    then have cin: "c' \<in> set bs" "takes_part s 0 c'"
      by (simp_all add: fb_def)
    from cin(1) have czs: "c' \<in> set zs" by (subst sp(1)) simp
    from cin(1) sp(3) have cge: "k \<le> ?K c'" by (simp add: not_less)
    have "k \<noteq> - 1"
    proof
      assume "k = - 1"
      with cge have "?K c' = - 1" by (simp add: word64_max_le)
      with notmax [OF czs] show False by simp
    qed
    moreover have "?K c' = k \<longleftrightarrow> k \<in> live_keys s zs"
    proof
      assume "?K c' = k"
      with czs cin(2) show "k \<in> live_keys s zs" by (auto simp: live_keys_def)
    next
      assume "k \<in> live_keys s zs"
      then obtain z where z: "z \<in> set zs" "takes_part s 0 z" "?K z = k"
        by (auto simp: live_keys_def)
      with sp(2) have "z \<notin> set as" by auto
      with z(1) have "z \<in> set bs" by (subst (asm) sp(1)) simp
      with z(2) have zfb: "z \<in> set (c' # fb')" by (simp add: fb_def Cons [symmetric])
      have sfb: "sorted_wrt (key_order s) (c' # fb')"
        using sorted unfolding Cons [symmetric] fb_def
        by (simp add: sorted_wrt_append sorted_wrt_filter)
      show "?K c' = k"
      proof (cases "z = c'")
        case True
        with z(3) show ?thesis by simp
      next
        case False
        with zfb sfb have "key_order s c' z" by auto
        with z(2,3) cge show ?thesis
          by (auto simp: key_order_def takes_part_def)
      qed
    qed
    ultimately show ?thesis using c' by simp
  qed
qed

lemma sl_inv_insert:
  fixes k :: u64
  assumes inv: "sl_inv s zs" and h: "h \<le> MAX_LEVEL"
    and knew: "k \<notin> live_keys s zs" "k \<noteq> - 1"
    and nx: "\<And>a l. snx s' a l =
               (if l \<le> h \<and> a = pred_at s k zs l then (Some (sfresh s), False)
                else if a = sfresh s
                     then (if l \<le> h then (Some (succ_at s k zs l), False) else (None, False))
                     else snx s a l)"
    and keys: "\<And>a. skey (sheap s' a) = (if a = sfresh s then k else skey (sheap s a))"
    and tops: "\<And>a. topLevel (sheap s' a) = (if a = sfresh s then h else topLevel (sheap s a))"
    and data: "\<And>a. sdata (sheap s' a) = (if a = sfresh s then Some x else sdata (sheap s a))"
    and fresh: "sfresh s' = Suc (sfresh s)"
  shows "sl_inv s' (sbelow s k zs @ sfresh s # sfrom s k zs)"
proof -
  let ?K = "\<lambda>z. skey (sheap s z)"
  define n where "n = sfresh s"
  define as where "as = sbelow s k zs"
  define bs where "bs = sfrom s k zs"
  note sp = sl_inv_split [OF inv, of k, folded as_def bs_def]
  note dist = sl_invD(5-7) [OF inv]
  have old: "\<And>z. z \<in> set zs \<Longrightarrow> z \<noteq> n"
    using sl_invD(9) [OF inv] by (auto simp: n_def)
  have hn: "s_head \<noteq> n" "s_tail \<noteq> n"
    using sl_inv_head_fresh [OF inv] sl_invD(8) [OF inv] by (auto simp: n_def)
  have setzs: "set zs = set as \<union> set bs"
    by (subst sp(1)) simp
  then have sub: "set as \<subseteq> set zs" "set bs \<subseteq> set zs"
    by auto
  have disj: "set as \<inter> set bs = {}"
    using dist(1) by (subst (asm) sp(1)) simp
  have pred: "pred_at s k zs l \<noteq> n \<and> pred_at s k zs l \<noteq> s_tail \<and>
                  pred_at s k zs l \<notin> set bs" for l
  proof -
    from pred_at_cases [OF inv, of k l] show ?thesis
    proof
      assume e: "pred_at s k zs l = s_head"
      have "s_head \<notin> set bs" using dist(2) subsetD [OF sub(2)] by (rule contrapos_nn)
      with hn(1) s_head_neq_tail show ?thesis unfolding e by simp
    next
      assume "pred_at s k zs l \<in> set (sbelow s k zs)"
      then have m: "pred_at s k zs l \<in> set as" unfolding as_def .
      then have z: "pred_at s k zs l \<in> set zs" by (rule subsetD [OF sub(1)])
      from m disj have "pred_at s k zs l \<notin> set bs" by (simp add: disjoint_iff)
      moreover have "pred_at s k zs l \<noteq> s_tail"
      proof
        assume "pred_at s k zs l = s_tail"
        with z dist(3) show False by simp
      qed
      ultimately show ?thesis using old [OF z] by simp
    qed
  qed
  have mark0: "getMark (snx s' z 0) = getMark (snx s z 0)" if "z \<noteq> n" for z
  proof -
    show "getMark (snx s' z 0) = getMark (snx s z 0)"
    proof (cases "z = pred_at s k zs 0")
      case True
      with sl_inv_level(6) [OF inv, of 0 k] show ?thesis
        by (simp add: nx getMark_def)
    next
      case False
      with that show ?thesis by (simp add: nx n_def)
    qed
  qed
  have tp_old: "takes_part s' l z = takes_part s l z" if "z \<in> set zs" for l z
    using old [OF that] by (simp add: takes_part_def mark0 tops n_def)
  have tp_new: "takes_part s' l n = (l \<le> h)" for l
    using pred [of 0] by (auto simp: takes_part_def nx tops n_def getMark_def)
  have filt: "filter (takes_part s' l) (as @ n # bs) =
      filter (takes_part s l) as @ (if l \<le> h then [n] else []) @ filter (takes_part s l) bs"
    for l
  proof -
    have "filter (takes_part s' l) as = filter (takes_part s l) as"
      using sub by (intro filter_cong) (auto simp: tp_old)
    moreover have "filter (takes_part s' l) bs = filter (takes_part s l) bs"
      using sub by (intro filter_cong) (auto simp: tp_old)
    ultimately show ?thesis by (simp add: tp_new)
  qed
  have chains: "\<forall>l \<le> MAX_LEVEL.
      chain (\<lambda>a. snx s' a l) (snx s' s_head l) (filter (takes_part s' l) (as @ n # bs))
        (Some s_tail, False)"
  proof (intro allI impI)
    fix l assume l: "l \<le> MAX_LEVEL"
    let ?fa = "filter (takes_part s l) as" and ?fb = "filter (takes_part s l) bs"
    let ?nx = "\<lambda>a. snx s a l"
    have "filter (takes_part s l) zs = ?fa @ ?fb" by (subst sp(1)) simp
    with sl_invD(1) [OF inv l]
    have ch: "chain ?nx (?nx s_head) (?fa @ ?fb) (Some s_tail, False)" by simp
    have d: "distinct (s_head # ?fa @ ?fb)"
      using dist by (subst (asm) (1 2) sp(1)) auto
    have f: "n \<notin> set (s_head # ?fa @ ?fb)"
      using old hn sub by auto
    show "chain (\<lambda>a. snx s' a l) (snx s' s_head l) (filter (takes_part s' l) (as @ n # bs))
            (Some s_tail, False)"
    proof (cases "l \<le> h")
      case True
      have e: "?nx(n := (Some (hd (?fb @ [s_tail])), False), last (s_head # ?fa) := (Some n, False))
                 = (\<lambda>a. snx s' a l)"
        using True pred [of l]
        by (auto simp: fun_eq_iff nx n_def pred_at_def succ_at_def as_def bs_def)
      have "chain (\<lambda>a. snx s' a l) (snx s' s_head l) (?fa @ n # ?fb) (Some s_tail, False)"
        using chain_insert [OF ch d f, unfolded e] .
      with True show ?thesis
        by (simp only: filt if_True append_Cons append_Nil)
    next
      case False
      have "chain (\<lambda>a. snx s' a l) (?nx s_head) (?fa @ ?fb) (Some s_tail, False)"
        using ch f False by (subst chain_frame [where nx = ?nx]) (auto simp: nx n_def)
      moreover have "snx s' s_head l = ?nx s_head"
        using False hn by (simp add: nx n_def)
      ultimately show ?thesis using False by (simp only: filt if_False append_Nil)
    qed
  qed
  have ko: "key_order s' a b = key_order s a b" if "a \<in> set zs" "b \<in> set zs" for a b
    using old [OF that(1)] old [OF that(2)] by (simp add: key_order_def keys mark0 n_def)
  have sorted: "sorted_wrt (key_order s') (as @ n # bs)"
  proof -
    have "sorted_wrt (key_order s) (as @ bs)"
      using sl_invD(13) [OF inv] by (subst (asm) sp(1))
    then have "sorted_wrt (key_order s') (as @ bs)"
    proof (rule sorted_wrt_mono_rel [rotated])
      fix a b assume "a \<in> set (as @ bs)" "b \<in> set (as @ bs)" "key_order s a b"
      then show "key_order s' a b" using ko [of a b] by (simp add: setzs)
    qed
    moreover have "\<forall>a \<in> set as. key_order s' a n"
      using sp(2) old sub by (auto simp: key_order_def keys n_def)
    moreover have "\<forall>b \<in> set bs. key_order s' n b"
    proof
      fix b assume b: "b \<in> set bs"
      with sub have bz: "b \<in> set zs" by auto
      from b sp(3) have ge: "k \<le> ?K b" by (simp add: not_less)
      show "key_order s' n b"
      proof (cases "?K b = k")
        case True
        with knew(1) bz have "\<not> takes_part s 0 b" by (auto simp: live_keys_def)
        with True old [OF bz] show ?thesis
          by (simp add: key_order_def keys mark0 takes_part_def n_def)
      next
        case False
        with ge have "k < ?K b" by simp
        with old [OF bz] show ?thesis by (simp add: key_order_def keys n_def)
      qed
    qed
    ultimately show ?thesis by (auto simp: sorted_wrt_append)
  qed
  have set': "set (as @ n # bs) = insert n (set zs)"
    by (auto simp: setzs)
  show ?thesis
    unfolding sl_inv_def as_def [symmetric] bs_def [symmetric] n_def [symmetric]
  proof (intro conjI)
    show "\<forall>l \<le> MAX_LEVEL.
      chain (\<lambda>a. snx s' a l) (snx s' s_head l) (filter (takes_part s' l) (as @ n # bs))
        (Some s_tail, False)" by (rule chains)
    show "\<forall>l \<le> MAX_LEVEL. snx s' s_tail l = (None, False)"
    proof (intro allI impI)
      fix l assume l: "l \<le> MAX_LEVEL"
      from pred [of l] have "s_tail \<noteq> pred_at s k zs l" by (simp add: neq_commute)
      with sl_invD(2) [OF inv l] hn show "snx s' s_tail l = (None, False)"
        by (simp add: nx n_def)
    qed
    show "skey (sheap s' s_tail) = - 1" using sl_invD(3) [OF inv] hn by (simp add: keys n_def)
    show "topLevel (sheap s' s_tail) = MAX_LEVEL"
      using sl_invD(4) [OF inv] hn by (simp add: tops n_def)
    show "distinct (as @ n # bs)"
      using dist(1) old sub by (subst (asm) sp(1)) auto
    show "s_head \<notin> set (as @ n # bs)" using dist(2) hn by (simp only: set') auto
    show "s_tail \<notin> set (as @ n # bs)" using dist(3) hn by (simp only: set') auto
    show "s_tail < sfresh s'" using sl_invD(8) [OF inv] by (simp add: fresh)
    show "\<forall>z \<in> set (as @ n # bs). z < sfresh s' \<and> topLevel (sheap s' z) \<le> MAX_LEVEL \<and>
            skey (sheap s' z) \<noteq> - 1 \<and> sdata (sheap s' z) \<noteq> None"
      using sl_invD(9-12) [OF inv] h knew(2)
      by (simp only: set') (auto simp: fresh keys tops data n_def intro: less_SucI)
    show "sorted_wrt (key_order s') (as @ n # bs)" by (rule sorted)
  qed
qed

subsection \<open>The skip list: \<open>add\<close>\<close>

lemma SkipList_add_loop_inv:
  fixes k :: u64
  assumes inv: "sl_inv s zs" and h: "h \<le> MAX_LEVEL"
  shows "if k \<in> live_keys s zs \<or> k = - 1
         then SkipList_add_loop s k x h None preds succs = Some (False, slog_event LeaveEpoch s)
         else (\<exists>s'. SkipList_add_loop s k x h None preds succs = Some (True, s') \<and>
                sl_inv s' (sbelow s k zs @ sfresh s # sfrom s k zs) \<and>
                (\<forall>z l. takes_part s' l z = (if z = sfresh s then l \<le> h else takes_part s l z)) \<and>
                (\<forall>z. skey (sheap s' z) = (if z = sfresh s then k else skey (sheap s z))) \<and>
                (\<forall>z. sdata (sheap s' z) = (if z = sfresh s then Some x else sdata (sheap s z))))"
proof -
  let ?P = "\<lambda>l. if l \<le> MAX_LEVEL then Some (pred_at s k zs l) else preds l"
  let ?S = "\<lambda>l. if l \<le> MAX_LEVEL then Some (succ_at s k zs l) else succs l"
  note find = SkipList_find_inv [OF inv, of k preds succs]
  note iff = sl_inv_found_iff [OF inv, of k]
  show ?thesis
  proof (cases "k \<in> live_keys s zs \<or> k = - 1")
    case True
    with iff have "skey (sheap s (succ_at s k zs 0)) = k" by simp
    with find have "SkipList_find s k preds succs = Some (True, s, ?P, ?S)" by simp
    from SkipList_add_loop_dup [OF this] True show ?thesis by simp
  next
    case False
    with iff have "skey (sheap s (succ_at s k zs 0)) \<noteq> k" by simp
    with find have f: "SkipList_find s k preds succs = Some (False, s, ?P, ?S)" by simp
    define n where "n = sfresh s"
    define s3 where "s3 = set_levels (snew s k (Some x) h) (sfresh s) ?S (Suc h)"
    define s4 where "s4 = sset_next s3 (pred_at s k zs 0) 0 (Some n, False)"
    have pn: "pred_at s k zs l \<noteq> n" for l
    proof -
      from pred_at_cases [OF inv, of k l] show ?thesis
      proof
        assume "pred_at s k zs l = s_head"
        with sl_inv_head_fresh [OF inv] show ?thesis by (simp add: n_def)
      next
        assume "pred_at s k zs l \<in> set (sbelow s k zs)"
        then have "pred_at s k zs l \<in> set zs" by (simp add: sbelow_def) (meson set_takeWhileD)
        from sl_invD(9) [OF inv this] show ?thesis by (simp add: n_def)
      qed
    qed
    have p0: "snx s3 (pred_at s k zs 0) 0 = (?S 0, False)"
      using sl_inv_level(6) [OF inv, of 0 k] pn [of 0] by (simp add: s3_def n_def)
    have cas: "scas s3 (pred_at s k zs 0) 0 (?S 0) (Some (sfresh s)) False False = (True, s4)"
      using scas_hit [OF p0] by (simp add: s4_def n_def)
    have pre: "\<forall>l. 1 \<le> l \<and> l \<le> h \<longrightarrow> (\<exists>p. ?P l = Some p \<and> snx s4 p l = (?S l, False))"
    proof (intro allI impI)
      fix l assume "1 \<le> l \<and> l \<le> h"
      with h have l: "l \<le> MAX_LEVEL" "l \<noteq> 0" by auto
      from sl_inv_level(6) [OF inv l(1), of k] pn [of l] l
      show "\<exists>p. ?P l = Some p \<and> snx s4 p l = (?S l, False)"
        by (simp add: s4_def s3_def n_def)
    qed
    from add_links_inv [OF pre, of k n] obtain s5
      where s5: "add_links s4 k n 1 h ?P ?S = Some s5"
        "\<And>a l. snx s5 a l =
            (if 1 \<le> l \<and> l \<le> h \<and> ?P l = Some a then (Some n, False) else snx s4 a l)"
        "same_nodes s4 s5"
      by blast
    define s' where "s' = slog_event LeaveEpoch s5"
    have run: "SkipList_add_loop s k x h None preds succs = Some (True, s')"
      unfolding s'_def using cas s5(1)
      by (intro SkipList_add_loop_ins [where r = "(True, s4)" and p = "pred_at s k zs 0", OF f s3_def])
         (simp_all add: n_def s'_def)
    have nx: "snx s' a l =
               (if l \<le> h \<and> a = pred_at s k zs l then (Some (sfresh s), False)
                else if a = sfresh s
                     then (if l \<le> h then (Some (succ_at s k zs l), False) else (None, False))
                     else snx s a l)" for a l
      using h pn [of l] by (cases "l = 0") (auto simp: s'_def s5(2) s4_def s3_def n_def)
    have keys: "skey (sheap s' a) = (if a = sfresh s then k else skey (sheap s a))" for a
      using s5(3) by (simp add: s'_def same_nodes_def s4_def s3_def)
    have tops: "topLevel (sheap s' a) = (if a = sfresh s then h else topLevel (sheap s a))" for a
      using s5(3) by (simp add: s'_def same_nodes_def s4_def s3_def)
    have data: "sdata (sheap s' a) = (if a = sfresh s then Some x else sdata (sheap s a))" for a
      using s5(3) by (simp add: s'_def same_nodes_def s4_def s3_def)
    have fresh: "sfresh s' = Suc (sfresh s)"
      using s5(3) by (simp add: s'_def same_nodes_def s4_def s3_def)
    from False have knew: "k \<notin> live_keys s zs" "k \<noteq> - 1" by simp_all
    note inv' = sl_inv_insert [OF inv h knew nx keys tops data fresh]
    have tp: "takes_part s' l z = (if z = sfresh s then l \<le> h else takes_part s l z)" for l z
    proof (cases "z = pred_at s k zs 0")
      case True
      with sl_inv_level(6) [OF inv, of 0 k] pn [of 0] show ?thesis
        by (simp add: takes_part_def nx tops getMark_def n_def)
    next
      case False
      then show ?thesis by (simp add: takes_part_def nx tops getMark_def)
    qed
    from False run inv' tp keys data show ?thesis by auto
  qed
qed

subsection \<open>The skip list: \<open>remove\<close>\<close>

lemma mark_levels_inv:
  assumes "\<forall>l. 1 \<le> l \<and> l \<le> level \<longrightarrow> \<not> getMark (snx s node l)"
  shows "\<exists>s'. mark_levels s node level = Some s' \<and>
           (\<forall>a l. snx s' a l =
              (if a = node \<and> 1 \<le> l \<and> l \<le> level then (getReference (snx s node l), True)
               else snx s a l)) \<and>
           same_nodes s s' \<and> slog s' = slog s"
  using assms
proof (induction level arbitrary: s)
  case 0
  then show ?case by (simp add: mark_levels_done)
next
  case (Suc m)
  let ?c = "snx s node (Suc m)"
  define s1 where "s1 = sset_next s node (Suc m) (getReference ?c, True)"
  from Suc.prems have um: "\<not> getMark ?c" by simp
  then have am: "attemptMark ?c (getReference ?c) True = (True, (getReference ?c, True))"
    by (simp add: attemptMark_def)
  have one: "mark_level s node (Suc m) = Some s1"
    using mark_level_mark [OF um refl] by (simp add: am s1_def)
  have step: "mark_levels s node (Suc m) = mark_levels s1 node m"
    using mark_levels_step [OF _ one] by simp
  have pre: "\<forall>l. 1 \<le> l \<and> l \<le> m \<longrightarrow> \<not> getMark (snx s1 node l)"
    using Suc.prems by (simp add: s1_def)
  from Suc.IH [OF pre] obtain s' where
    run: "mark_levels s1 node m = Some s'"
    and nx: "\<forall>a l. snx s' a l =
              (if a = node \<and> 1 \<le> l \<and> l \<le> m then (getReference (snx s1 node l), True)
               else snx s1 a l)"
    and same: "same_nodes s1 s'" and log: "slog s' = slog s1"
    by blast
  have "\<forall>a l. snx s' a l =
          (if a = node \<and> 1 \<le> l \<and> l \<le> Suc m then (getReference (snx s node l), True)
           else snx s a l)"
  proof (intro allI)
    fix a l
    show "snx s' a l =
          (if a = node \<and> 1 \<le> l \<and> l \<le> Suc m then (getReference (snx s node l), True)
           else snx s a l)"
    proof (cases "l = Suc m")
      case True
      with nx show ?thesis by (simp add: s1_def)
    next
      case False
      then have "l \<le> Suc m \<longleftrightarrow> l \<le> m" by auto
      with nx False show ?thesis by (simp add: s1_def)
    qed
  qed
  moreover have "same_nodes s s'"
    using same by (simp add: s1_def same_nodes_def)
  ultimately show ?case using run step log by (simp add: s1_def)
qed

lemma unlink_levels_inv:
  assumes "\<forall>l. level \<le> l \<and> l \<le> h \<longrightarrow> (\<exists>p. preds l = Some p \<and> snx s p l = (Some node, False))"
  shows "\<exists>s'. unlink_levels s node level h preds = Some (s', True) \<and>
           (\<forall>a l. snx s' a l =
              (if level \<le> l \<and> l \<le> h \<and> preds l = Some a
               then (getReference (snx s node l), False) else snx s a l)) \<and>
           same_nodes s s' \<and> slog s' = slog s"
  using assms
proof (induction "Suc h - level" arbitrary: s level)
  case 0
  then have "\<not> level \<le> h" by simp
  then show ?case by (auto simp: unlink_levels_done)
next
  case (Suc m)
  from Suc.hyps(2) have le: "level \<le> h" by simp
  with Suc.prems obtain p where p: "preds level = Some p" "snx s p level = (Some node, False)"
    by blast
  let ?d = "getReference (snx s node level)"
  define s1 where "s1 = sset_next s p level (?d, False)"
  have cas: "scas s p level (Some node) ?d False False = (True, s1)"
    by (simp add: scas_hit [OF p(2)] s1_def)
  have step: "unlink_levels s node level h preds = unlink_levels s1 node (Suc level) h preds"
    using unlink_levels_step [where r = "(True, s1)" and s = s and node = node
        and preds = preds and level = level and p = p and height = h] le p(1)
    by (simp add: cas)
  have m: "m = Suc h - Suc level" using Suc.hyps(2) by simp
  have pre: "\<forall>l. Suc level \<le> l \<and> l \<le> h \<longrightarrow>
               (\<exists>p. preds l = Some p \<and> snx s1 p l = (Some node, False))"
    using Suc.prems by (auto simp: s1_def)
  from Suc.hyps(1) [OF m pre] obtain s' where
    run: "unlink_levels s1 node (Suc level) h preds = Some (s', True)"
    and nx: "\<forall>a l. snx s' a l =
              (if Suc level \<le> l \<and> l \<le> h \<and> preds l = Some a
               then (getReference (snx s1 node l), False) else snx s1 a l)"
    and same: "same_nodes s1 s'" and log: "slog s' = slog s1"
    by blast
  have "\<forall>a l. snx s' a l =
          (if level \<le> l \<and> l \<le> h \<and> preds l = Some a
           then (getReference (snx s node l), False) else snx s a l)"
  proof (intro allI)
    fix a l
    show "snx s' a l =
          (if level \<le> l \<and> l \<le> h \<and> preds l = Some a
           then (getReference (snx s node l), False) else snx s a l)"
    proof (cases "l = level")
      case True
      with nx p(1) le show ?thesis by (auto simp: s1_def)
    next
      case False
      then have "Suc level \<le> l \<longleftrightarrow> level \<le> l" by auto
      with nx False show ?thesis by (simp add: s1_def)
    qed
  qed
  moreover have "same_nodes s s'"
    using same by (simp add: s1_def same_nodes_def)
  ultimately show ?case using run step log by (simp add: s1_def)
qed

lemma sl_inv_live_node:
  fixes k :: u64
  assumes inv: "sl_inv s zs" and live: "k \<in> live_keys s zs"
  shows "\<exists>c bs. sfrom s k zs = c # bs \<and> skey (sheap s c) = k \<and> takes_part s 0 c"
proof -
  let ?K = "\<lambda>z. skey (sheap s z)"
  note sp = sl_inv_split [OF inv, of k]
  from live obtain z where z: "z \<in> set zs" "takes_part s 0 z" "?K z = k"
    by (auto simp: live_keys_def)
  with sp(2) have "z \<notin> set (sbelow s k zs)" by auto
  with z(1) have zb: "z \<in> set (sfrom s k zs)" by (subst (asm) sp(1)) simp
  then obtain b bs where bs: "sfrom s k zs = b # bs" by (cases "sfrom s k zs") auto
  have sorted: "sorted_wrt (key_order s) (b # bs)"
    using sl_invD(13) [OF inv] by (subst (asm) sp(1)) (simp add: sorted_wrt_append bs)
  have "b = z"
  proof (rule ccontr)
    assume "b \<noteq> z"
    with zb bs have "z \<in> set bs" by auto
    with sorted have "key_order s b z" by simp
    moreover from sp(3) bs have "\<not> ?K b < k" by simp
    ultimately show False using z(2,3) by (auto simp: key_order_def takes_part_def)
  qed
  with bs z show ?thesis by simp
qed

lemma sl_inv_delete:
  fixes k :: u64
  assumes inv: "sl_inv s zs" and sf: "sfrom s k zs = c # bs" and cl: "takes_part s 0 c"
    and nx: "\<And>a l. snx s' a l =
               (if l \<le> topLevel (sheap s c) \<and> a = pred_at s k zs l
                then (getReference (snx s c l), False)
                else if a = c \<and> l \<le> topLevel (sheap s c)
                     then (getReference (snx s c l), True)
                     else snx s a l)"
    and same: "same_nodes s s'"
  shows "sl_inv s' (sbelow s k zs @ bs)"
proof -
  define as where "as = sbelow s k zs"
  define h where "h = topLevel (sheap s c)"
  note sp = sl_inv_split [OF inv, of k, folded as_def, unfolded sf]
  note dist = sl_invD(5-7) [OF inv]
  have setzs: "set zs = insert c (set as \<union> set bs)"
    by (subst sp(1)) simp
  then have czs: "c \<in> set zs" by simp
  have dist': "distinct (as @ c # bs)"
    using dist(1) by (subst (asm) sp(1))
  then have cn: "c \<notin> set as" "c \<notin> set bs" by simp_all
  from dist(2,3) czs have chd: "c \<noteq> s_head" "c \<noteq> s_tail" by auto
  have hmax: "h \<le> MAX_LEVEL"
    using sl_invD(10) [OF inv czs] by (simp add: h_def)
  have tpc: "takes_part s l c = (l \<le> h)" for l
    using cl by (cases "l = 0") (simp_all add: takes_part_def h_def)
  have pred: "pred_at s k zs l \<noteq> c \<and> pred_at s k zs l \<noteq> s_tail" for l
  proof -
    from pred_at_cases [OF inv, of k l] show ?thesis
    proof
      assume e: "pred_at s k zs l = s_head"
      from chd show ?thesis unfolding e by (simp add: neq_commute)
    next
      assume "pred_at s k zs l \<in> set (sbelow s k zs)"
      then have m: "pred_at s k zs l \<in> set as" unfolding as_def .
      with cn(1) have "pred_at s k zs l \<noteq> c" by auto
      moreover have "pred_at s k zs l \<noteq> s_tail"
      proof
        assume "pred_at s k zs l = s_tail"
        with m dist(3) show False by (simp add: setzs)
      qed
      ultimately show ?thesis by simp
    qed
  qed
  have mark0: "getMark (snx s' z 0) = getMark (snx s z 0)" if "z \<noteq> c" for z
  proof (cases "z = pred_at s k zs 0")
    case True
    with sl_inv_level(6) [OF inv, of 0 k] show ?thesis
      by (simp add: nx getMark_def)
  next
    case False
    with that show ?thesis by (simp add: nx)
  qed
  have tops: "topLevel (sheap s' a) = topLevel (sheap s a)" for a
    using same by (simp add: same_nodes_def)
  have keys: "skey (sheap s' a) = skey (sheap s a)" for a
    using same by (simp add: same_nodes_def)
  have tp_old: "takes_part s' l z = takes_part s l z" if "z \<noteq> c" for l z
    using that by (simp add: takes_part_def mark0 tops)
  have fa: "filter (takes_part s' l) as = filter (takes_part s l) as" for l
  proof (rule filter_cong [OF refl])
    fix x assume "x \<in> set as"
    with cn(1) have "x \<noteq> c" by auto
    then show "takes_part s' l x = takes_part s l x" by (rule tp_old)
  qed
  have fb: "filter (takes_part s' l) bs = filter (takes_part s l) bs" for l
  proof (rule filter_cong [OF refl])
    fix x assume "x \<in> set bs"
    with cn(2) have "x \<noteq> c" by auto
    then show "takes_part s' l x = takes_part s l x" by (rule tp_old)
  qed
  have chains: "\<forall>l \<le> MAX_LEVEL.
      chain (\<lambda>a. snx s' a l) (snx s' s_head l) (filter (takes_part s' l) (as @ bs))
        (Some s_tail, False)"
  proof (intro allI impI)
    fix l assume l: "l \<le> MAX_LEVEL"
    let ?fa = "filter (takes_part s l) as" and ?fb = "filter (takes_part s l) bs"
    let ?nx = "\<lambda>a. snx s a l"
    have fz: "filter (takes_part s l) zs = ?fa @ (if l \<le> h then [c] else []) @ ?fb"
      by (subst sp(1)) (simp add: tpc)
    note ch0 = sl_invD(1) [OF inv l, unfolded fz]
    show "chain (\<lambda>a. snx s' a l) (snx s' s_head l) (filter (takes_part s' l) (as @ bs))
            (Some s_tail, False)"
    proof (cases "l \<le> h")
      case True
      with ch0 have ch: "chain ?nx (?nx s_head) (?fa @ c # ?fb) (Some s_tail, False)" by simp
      have d: "distinct (s_head # ?fa @ c # ?fb)"
        using dist' dist(2) by (auto simp: setzs)
      from ch obtain e where "chain ?nx (?nx c) ?fb (Some s_tail, False)"
        by (auto simp: chain_append)
      from chain_first [OF this] have cref: "getReference (snx s c l) = Some (hd (?fb @ [s_tail]))"
        by (simp add: getReference_def)
      have e: "?nx(c := (getReference (snx s c l), True),
                   last (s_head # ?fa) := (Some (hd (?fb @ [s_tail])), False))
                 = (\<lambda>a. snx s' a l)"
        using True pred [of l]
        by (auto simp: fun_eq_iff nx pred_at_def as_def h_def cref)
      have "chain (\<lambda>a. snx s' a l) (snx s' s_head l) (?fa @ ?fb) (Some s_tail, False)"
        using chain_delete [OF ch d, where v = "(getReference (snx s c l), True)", unfolded e] .
      then show ?thesis by (simp only: filter_append fa fb)
    next
      case False
      then have "(\<lambda>a. snx s' a l) = ?nx" by (auto simp: fun_eq_iff nx h_def)
      moreover from False have "snx s' s_head l = ?nx s_head" by (simp add: nx h_def)
      moreover from ch0 False have "chain ?nx (?nx s_head) (?fa @ ?fb) (Some s_tail, False)"
        by simp
      ultimately show ?thesis by (simp only: filter_append fa fb)
    qed
  qed
  have ko: "key_order s' a b = key_order s a b" if "b \<noteq> c" for a b
    using that by (simp add: key_order_def keys mark0)
  have sorted: "sorted_wrt (key_order s') (as @ bs)"
  proof -
    have "sorted_wrt (key_order s) (as @ bs)"
      using sl_invD(13) [OF inv] by (subst (asm) sp(1)) (simp add: sorted_wrt_append)
    then show ?thesis
    proof (rule sorted_wrt_mono_rel [rotated])
      fix a b assume "a \<in> set (as @ bs)" "b \<in> set (as @ bs)" "key_order s a b"
      with cn show "key_order s' a b" using ko [of b a] by auto
    qed
  qed
  have sub: "set (as @ bs) \<subseteq> set zs" by (auto simp: setzs)
  show ?thesis
    unfolding sl_inv_def as_def [symmetric]
  proof (intro conjI)
    show "\<forall>l \<le> MAX_LEVEL.
      chain (\<lambda>a. snx s' a l) (snx s' s_head l) (filter (takes_part s' l) (as @ bs))
        (Some s_tail, False)" by (rule chains)
    show "\<forall>l \<le> MAX_LEVEL. snx s' s_tail l = (None, False)"
    proof (intro allI impI)
      fix l assume l: "l \<le> MAX_LEVEL"
      from pred [of l] have "s_tail \<noteq> pred_at s k zs l" by (simp add: neq_commute)
      with sl_invD(2) [OF inv l] chd show "snx s' s_tail l = (None, False)"
        by (simp add: nx neq_commute)
    qed
    show "skey (sheap s' s_tail) = - 1" using sl_invD(3) [OF inv] by (simp add: keys)
    show "topLevel (sheap s' s_tail) = MAX_LEVEL" using sl_invD(4) [OF inv] by (simp add: tops)
    show "distinct (as @ bs)" using dist' by simp
    show "s_head \<notin> set (as @ bs)" using dist(2) sub by auto
    show "s_tail \<notin> set (as @ bs)" using dist(3) sub by auto
    show "s_tail < sfresh s'" using sl_invD(8) [OF inv] same by (simp add: same_nodes_def)
    show "\<forall>z \<in> set (as @ bs). z < sfresh s' \<and> topLevel (sheap s' z) \<le> MAX_LEVEL \<and>
            skey (sheap s' z) \<noteq> - 1 \<and> sdata (sheap s' z) \<noteq> None"
    proof
      fix z assume "z \<in> set (as @ bs)"
      with sub have z: "z \<in> set zs" by auto
      from sl_invD(9-12) [OF inv z] same
      show "z < sfresh s' \<and> topLevel (sheap s' z) \<le> MAX_LEVEL \<and>
            skey (sheap s' z) \<noteq> - 1 \<and> sdata (sheap s' z) \<noteq> None"
        by (simp add: same_nodes_def)
    qed
    show "sorted_wrt (key_order s') (as @ bs)" by (rule sorted)
  qed
qed

lemma SkipList_remove_loop_inv:
  fixes k :: u64
  assumes inv: "sl_inv s zs" and k: "k \<noteq> - 1"
  shows "if k \<in> live_keys s zs
         then (\<exists>s' c bs. SkipList_remove_loop s k preds succs = Some (True, s') \<and>
                 sfrom s k zs = c # bs \<and> skey (sheap s c) = k \<and> takes_part s 0 c \<and>
                 sl_inv s' (sbelow s k zs @ bs) \<and>
                 (\<forall>z l. z \<noteq> c \<longrightarrow> takes_part s' l z = takes_part s l z) \<and>
                 same_nodes s s')
         else SkipList_remove_loop s k preds succs = Some (False, slog_event LeaveEpoch s)"
proof -
  let ?P = "\<lambda>l. if l \<le> MAX_LEVEL then Some (pred_at s k zs l) else preds l"
  let ?S = "\<lambda>l. if l \<le> MAX_LEVEL then Some (succ_at s k zs l) else succs l"
  note find = SkipList_find_inv [OF inv, of k preds succs]
  note iff = sl_inv_found_iff [OF inv, of k]
  show ?thesis
  proof (cases "k \<in> live_keys s zs")
    case False
    with iff k have "skey (sheap s (succ_at s k zs 0)) \<noteq> k" by simp
    with find have "SkipList_find s k preds succs = Some (False, s, ?P, ?S)" by simp
    from SkipList_remove_loop_absent [OF this] False show ?thesis by simp
  next
    case True
    with iff have "skey (sheap s (succ_at s k zs 0)) = k" by simp
    with find have f: "SkipList_find s k preds succs = Some (True, s, ?P, ?S)" by simp
    from sl_inv_live_node [OF inv True] obtain c bs
      where c: "sfrom s k zs = c # bs" "skey (sheap s c) = k" "takes_part s 0 c" by blast
    define h where "h = topLevel (sheap s c)"
    note sp = sl_inv_split [OF inv, of k, unfolded c(1)]
    have czs: "c \<in> set zs" by (subst sp(1)) simp
    have hmax: "h \<le> MAX_LEVEL"
      using sl_invD(10) [OF inv czs] by (simp add: h_def)
    have tpc: "takes_part s l c" if "l \<le> h" for l
      using c(3) that by (cases "l = 0") (simp_all add: takes_part_def h_def)
    have sc: "succ_at s k zs l = c" if "l \<le> h" for l
      using tpc [OF that] by (simp add: succ_at_def c(1))
    have S0: "?S 0 = Some c" using sc [of 0] by simp
    have pc: "pred_at s k zs l \<noteq> c" for l
    proof -
      from pred_at_cases [OF inv, of k l] show ?thesis
      proof
        assume "pred_at s k zs l = s_head"
        with sl_invD(6) [OF inv] czs show ?thesis by auto
      next
        assume "pred_at s k zs l \<in> set (sbelow s k zs)"
        moreover from sl_invD(5) [OF inv] have "c \<notin> set (sbelow s k zs)"
          by (subst (asm) sp(1)) simp
        ultimately show ?thesis by auto
      qed
    qed
    have pl: "snx s (pred_at s k zs l) l = (Some c, False)" if "l \<le> h" for l
    proof -
      from that hmax have "l \<le> MAX_LEVEL" by simp
      from sl_inv_level(6) [OF inv this, of k] sc [OF that] show ?thesis by simp
    qed
    have um: "\<forall>l. 1 \<le> l \<and> l \<le> h \<longrightarrow> \<not> getMark (snx s c l)"
    proof (intro allI impI)
      fix l assume l: "1 \<le> l \<and> l \<le> h"
      with hmax have lm: "l \<le> MAX_LEVEL" by simp
      from l czs tpc have "c \<in> set (filter (takes_part s l) zs)" by simp
      from chain_unmarked [OF sl_invD(1) [OF inv lm] this]
      show "\<not> getMark (snx s c l)" by (simp add: getMark_def)
    qed
    from mark_levels_inv [OF um] obtain s2
      where s2: "mark_levels s c h = Some s2"
        "\<And>a l. snx s2 a l =
           (if a = c \<and> 1 \<le> l \<and> l \<le> h then (getReference (snx s c l), True) else snx s a l)"
        "same_nodes s s2"
      by blast
    define r where "r = getReference (snx s c 0)"
    define s3 where "s3 = sset_next s2 c 0 (r, True)"
    from c(3) have c0: "snx s2 c 0 = (r, False)"
      by (simp add: s2(2) takes_part_def getMark_def getReference_def r_def prod_eq_iff)
    have mb: "mark_bottom s2 c = Some (s3, True)"
      using mark_bottom_won [where s = s2 and node = c and r = "(True, s3)"]
      by (simp add: c0 getMark_def getReference_def scas_hit [OF c0] s3_def)
    have same3: "same_nodes s s3"
      using s2(3) by (simp add: same_nodes_def s3_def)
    then have h3: "topLevel (sheap s3 c) = h"
      by (simp add: same_nodes_def h_def)
    have pre: "\<forall>l. 0 \<le> l \<and> l \<le> h \<longrightarrow> (\<exists>p. ?P l = Some p \<and> snx s3 p l = (Some c, False))"
    proof (intro allI impI)
      fix l assume "0 \<le> l \<and> l \<le> h"
      then have l: "l \<le> h" by simp
      with hmax have "l \<le> MAX_LEVEL" by simp
      with pl [OF l] pc [of l]
      show "\<exists>p. ?P l = Some p \<and> snx s3 p l = (Some c, False)"
        by (simp add: s3_def s2(2))
    qed
    from unlink_levels_inv [OF pre] obtain s4
      where s4: "unlink_levels s3 c 0 h ?P = Some (s4, True)"
        "\<And>a l. snx s4 a l =
           (if 0 \<le> l \<and> l \<le> h \<and> ?P l = Some a
            then (getReference (snx s3 c l), False) else snx s3 a l)"
        "same_nodes s3 s4"
      by blast
    define s' where "s' = slog_event LeaveEpoch (slog_event (RetireNode c) s4)"
    have run: "SkipList_remove_loop s k preds succs = Some (True, s')"
      unfolding s'_def
      by (rule SkipList_remove_loop_found [OF f S0, where ?s2.0 = s2 and ?s3.0 = s3])
         (simp_all add: s2(1) [unfolded h_def] mb h3 s4(1))
    have ref3: "getReference (snx s3 c l) = getReference (snx s c l)" for l
      by (simp add: s3_def s2(2) r_def getReference_def)
    have nx: "snx s' a l =
               (if l \<le> topLevel (sheap s c) \<and> a = pred_at s k zs l
                then (getReference (snx s c l), False)
                else if a = c \<and> l \<le> topLevel (sheap s c)
                     then (getReference (snx s c l), True)
                     else snx s a l)" for a l
      using hmax pc [of l]
      by (cases "l = 0") (auto simp: s'_def s4(2) s3_def s2(2) r_def h_def [symmetric] getReference_def)
    have same: "same_nodes s s'"
      using same_nodes_trans [OF same3 s4(3)] by (simp add: same_nodes_def s'_def)
    note inv' = sl_inv_delete [OF inv c(1,3) nx same]
    have tp: "takes_part s' l z = takes_part s l z" if "z \<noteq> c" for l z
    proof (cases "z = pred_at s k zs 0 \<and> l = 0")
      case True
      with pl [of 0] that show ?thesis
        by (simp add: takes_part_def nx getMark_def)
    next
      case False
      with that same show ?thesis
        by (auto simp: takes_part_def nx same_nodes_def)
    qed
    from True run c inv' tp same show ?thesis by auto
  qed
qed

subsection \<open>The skip list: \<open>popMin\<close> and the upper levels\<close>

lemma sl_inv_level0:
  assumes inv: "sl_inv s zs"
  shows "level0_inv s (filter (takes_part s 0) zs)"
  unfolding level0_inv_def
proof (intro conjI)
  let ?xs = "filter (takes_part s 0) zs"
  show "chain (\<lambda>a. snx s a 0) (snx s s_head 0) ?xs (Some s_tail, False)"
    using sl_invD(1) [OF inv, of 0] by simp
  show "distinct ?xs" using sl_invD(5) [OF inv] by simp
  show "s_head \<notin> set ?xs" using sl_invD(6) [OF inv] by simp
  show "s_tail \<notin> set ?xs" using sl_invD(7) [OF inv] by simp
  have "sorted_wrt (\<lambda>a b. skey (sheap s a) < skey (sheap s b)) ?xs"
  proof (rule sorted_wrt_mono_rel [rotated])
    show "sorted_wrt (key_order s) ?xs"
      using sl_invD(13) [OF inv] by (rule sorted_wrt_filter)
  next
    fix a b assume "a \<in> set ?xs" "b \<in> set ?xs" "key_order s a b"
    then show "skey (sheap s a) < skey (sheap s b)"
      by (auto simp: key_order_def takes_part_def)
  qed
  then show "sorted_wrt (<) (map (\<lambda>x. skey (sheap s x)) ?xs)"
    by (simp add: sorted_wrt_map)
  show "\<forall>x \<in> set ?xs. sdata (sheap s x) \<noteq> None"
    using sl_invD(12) [OF inv] by simp
qed

lemma SkipList_popMin_inv:
  assumes inv: "sl_inv s zs"
  shows "case filter (takes_part s 0) zs of
           [] \<Rightarrow> SkipList_popMin s = Some (None, s)
         | c # ys \<Rightarrow>
             (\<exists>s'. SkipList_popMin s = Some (sdata (sheap s c), s') \<and> sl_inv s' zs \<and>
                (\<forall>z l. z \<in> set zs \<longrightarrow>
                   takes_part s' l z = (takes_part s l z \<and> \<not> (z = c \<and> l = 0))) \<and>
                same_nodes s s')"
proof (cases "filter (takes_part s 0) zs")
  case Nil
  with sl_inv_level0 [OF inv] have "level0_inv s []" by simp
  from SkipList_popMin_nil [OF this] Nil show ?thesis by simp
next
  case (Cons c ys)
  define d where "d = hd (ys @ [s_tail])"
  define s' where "s' = slog_event (RetireNode c)
                          (sset_next (sset_next s c 0 (Some d, True)) s_head 0 (Some d, False))"
  from sl_inv_level0 [OF inv] Cons have l0: "level0_inv s (c # ys)" by simp
  note pop = SkipList_popMin_cons [OF l0, folded d_def, folded s'_def]
  from Cons have "c \<in> set (filter (takes_part s 0) zs)" by simp
  then have czs: "c \<in> set zs" and cl: "takes_part s 0 c" by simp_all
  note dist = sl_invD(5-7) [OF inv]
  from czs dist have chd: "c \<noteq> s_head" "c \<noteq> s_tail" by auto
  have nx: "snx s' a l =
      (if l = 0 \<and> a = s_head then (Some d, False)
       else if l = 0 \<and> a = c then (Some d, True) else snx s a l)" for a l
    by (auto simp: s'_def)
  have same: "same_nodes s s'"
    by (simp add: same_nodes_def s'_def)
  have tp: "takes_part s' l z = (takes_part s l z \<and> \<not> (z = c \<and> l = 0))" if "z \<in> set zs" for l z
  proof -
    from that dist(2) have "z \<noteq> s_head" by auto
    then show ?thesis
      by (auto simp: takes_part_def nx getMark_def s'_def)
  qed
  have f0: "filter (takes_part s' 0) zs = ys"
  proof -
    have "filter (takes_part s' 0) zs = filter (\<lambda>z. z \<noteq> c) (filter (takes_part s 0) zs)"
      unfolding filter_filter by (rule filter_cong [OF refl]) (auto simp: tp)
    also have "\<dots> = filter (\<lambda>z. z \<noteq> c) ys" by (simp add: Cons)
    also have "\<dots> = ys"
    proof (rule filter_True)
      from l0 have "distinct (c # ys)" by (simp add: level0_inv_def)
      then show "\<forall>x \<in> set ys. x \<noteq> c" by auto
    qed
    finally show ?thesis .
  qed
  have fl: "filter (takes_part s' l) zs = filter (takes_part s l) zs" if "l \<noteq> 0" for l
    using that by (intro filter_cong [OF refl]) (simp add: tp)
  have inv': "sl_inv s' zs"
    unfolding sl_inv_def
  proof (intro conjI)
    show "\<forall>l \<le> MAX_LEVEL.
      chain (\<lambda>a. snx s' a l) (snx s' s_head l) (filter (takes_part s' l) zs) (Some s_tail, False)"
    proof (intro allI impI)
      fix l assume l: "l \<le> MAX_LEVEL"
      show "chain (\<lambda>a. snx s' a l) (snx s' s_head l) (filter (takes_part s' l) zs)
              (Some s_tail, False)"
      proof (cases "l = 0")
        case True
        from pop(2) show ?thesis unfolding True f0 by (simp add: level0_inv_def)
      next
        case False
        then have "(\<lambda>a. snx s' a l) = (\<lambda>a. snx s a l)" by (simp add: fun_eq_iff nx)
        moreover from False have "snx s' s_head l = snx s s_head l" by (simp add: nx)
        ultimately show ?thesis using sl_invD(1) [OF inv l] by (simp only: fl [OF False])
      qed
    qed
    show "\<forall>l \<le> MAX_LEVEL. snx s' s_tail l = (None, False)"
      using sl_invD(2) [OF inv] chd by (simp add: nx neq_commute)
    show "skey (sheap s' s_tail) = - 1" using sl_invD(3) [OF inv] by (simp add: s'_def)
    show "topLevel (sheap s' s_tail) = MAX_LEVEL" using sl_invD(4) [OF inv] by (simp add: s'_def)
    show "distinct zs" "s_head \<notin> set zs" "s_tail \<notin> set zs" by (rule dist)+
    show "s_tail < sfresh s'" using sl_invD(8) [OF inv] by (simp add: s'_def)
    show "\<forall>z \<in> set zs. z < sfresh s' \<and> topLevel (sheap s' z) \<le> MAX_LEVEL \<and>
            skey (sheap s' z) \<noteq> - 1 \<and> sdata (sheap s' z) \<noteq> None"
      using sl_invD(9-12) [OF inv] by (simp add: s'_def)
    show "sorted_wrt (key_order s') zs"
    proof (rule sorted_wrt_mono_rel [rotated])
      show "sorted_wrt (key_order s) zs" by (rule sl_invD(13) [OF inv])
    next
      fix a b assume "a \<in> set zs" "b \<in> set zs" "key_order s a b"
      with dist(2) show "key_order s' a b"
        by (auto simp: key_order_def nx getMark_def s'_def)
    qed
  qed
  from pop(1) inv' tp same show ?thesis by (simp add: Cons)
qed

subsection \<open>The skip list: \<open>contains\<close> when no node is marked\<close>

lemma contains_walk_chain:
  assumes "chain (\<lambda>a. snx s a level) c ys (Some s_tail, False)"
    and "snx s s_tail level = (None, False)" and "skey (sheap s s_tail) = - 1"
  shows "contains_walk s key level p (getReference c) =
         Some (last (p # takeWhile (\<lambda>y. skey (sheap s y) < key) ys),
               Some (hd (dropWhile (\<lambda>y. skey (sheap s y) < key) ys @ [s_tail])))"
  using assms(1)
proof (induction ys arbitrary: c p)
  case Nil
  then have c: "getReference c = Some s_tail" by (simp add: getReference_def)
  have "\<not> getMark (snx s s_tail level)" by (simp add: assms(2) getMark_def)
  moreover have "\<not> skey (sheap s s_tail) < key" by (simp add: assms(3))
  ultimately show ?case by (simp add: c contains_walk_stop)
next
  case (Cons y ys)
  then have c: "getReference c = Some y" and rest: "chain (\<lambda>a. snx s a level) (snx s y level) ys (Some s_tail, False)"
    by (simp_all add: getReference_def)
  from chain_first [OF rest] have um: "\<not> getMark (snx s y level)"
    by (simp add: getMark_def)
  show ?case
  proof (cases "skey (sheap s y) < key")
    case True
    from contains_walk_step [OF um True] Cons.IH [OF rest, of y] True show ?thesis
      by (simp add: c)
  next
    case False
    from contains_walk_stop [OF um False] False show ?thesis by (simp add: c)
  qed
qed

lemma chain_suffix:
  "chain nx (nx a) xs e \<Longrightarrow> a # xs = us @ p # ys \<Longrightarrow> chain nx (nx p) ys e"
proof (induction us arbitrary: a xs)
  case Nil
  then show ?case by simp
next
  case (Cons u us)
  from Cons.prems(2) have xs: "xs = us @ p # ys" by simp
  show ?case
  proof (cases us)
    case Nil
    with xs Cons.prems(1) show ?thesis by simp
  next
    case (Cons v vs)
    with xs Cons.prems(1) have "chain nx (nx v) (vs @ p # ys) e" by simp
    moreover from Cons have "v # (vs @ p # ys) = us @ p # ys" by simp
    ultimately show ?thesis by (rule Cons.IH)
  qed
qed

lemma contains_walk_inv:
  fixes key :: u64
  assumes inv: "sl_inv s zs" and le: "level \<le> MAX_LEVEL"
    and p: "p \<in> set (s_head # filter (takes_part s level) (sbelow s key zs))"
  shows "contains_walk s key level p (getReference (snx s p level)) =
         Some (pred_at s key zs level, Some (succ_at s key zs level))"
proof -
  let ?nx = "\<lambda>a. snx s a level" and ?P = "\<lambda>y. skey (sheap s y) < key"
  define fa where "fa = filter (takes_part s level) (sbelow s key zs)"
  define fb where "fb = filter (takes_part s level) (sfrom s key zs)"
  note lv = sl_inv_level [OF inv le, of key]
  from lv(4,5) have ch: "chain ?nx (?nx s_head) (fa @ fb) (Some s_tail, False)"
    by (auto simp: chain_append fa_def fb_def)
  from p have "p \<in> set (s_head # fa)" by (simp only: fa_def)
  from split_list [OF this] obtain us ys where sp: "s_head # fa = us @ p # ys"
    by blast
  then have sp': "s_head # fa @ fb = us @ p # (ys @ fb)" by simp
  from chain_suffix [OF ch sp'] have chp: "chain ?nx (?nx p) (ys @ fb) (Some s_tail, False)" .
  have "set ys \<subseteq> set (s_head # fa)" unfolding sp by auto
  moreover have "set ys \<subseteq> set (tl (us @ p # ys))" by (cases us) auto
  ultimately have ysa: "\<forall>y \<in> set ys. ?P y"
    using lv(2) unfolding sp [symmetric] by (auto simp: fa_def)
  have fbn: "\<forall>y \<in> set fb. \<not> ?P y"
    using lv(3) by (simp add: fb_def)
  have tw: "takeWhile ?P (ys @ fb) = ys"
    using ysa fbn by (simp add: takeWhile_none)
  have dw: "dropWhile ?P (ys @ fb) = fb"
    using ysa fbn by (simp add: dropWhile_none)
  have "last (p # ys) = last (s_head # fa)" unfolding sp by simp
  then have pr: "last (p # ys) = pred_at s key zs level"
    by (simp add: pred_at_def fa_def)
  have sc: "hd (fb @ [s_tail]) = succ_at s key zs level"
    by (simp add: succ_at_def fb_def)
  from contains_walk_chain [OF chp sl_invD(2) [OF inv le] sl_invD(3) [OF inv], of key p]
  show ?thesis unfolding tw dw pr sc .
qed

lemma contains_levels_inv:
  fixes key :: u64
  assumes inv: "sl_inv s zs" and clean: "\<forall>z \<in> set zs. takes_part s 0 z"
    and le: "level \<le> MAX_LEVEL"
    and p: "p \<in> set (s_head # filter (takes_part s level) (sbelow s key zs))"
  shows "contains_levels s key level p = Some (Some (succ_at s key zs 0))"
  using le p
proof (induction level arbitrary: p)
  case 0
  from contains_levels_last [OF contains_walk_inv [OF inv 0]] show ?case .
next
  case (Suc l)
  from Suc.prems(1) have l: "l \<le> MAX_LEVEL" by simp
  note walk = contains_walk_inv [OF inv Suc.prems]
  have "pred_at s key zs (Suc l) \<in> set (s_head # filter (takes_part s (Suc l)) (sbelow s key zs))"
    unfolding pred_at_def by (rule last_in_set) simp
  moreover have "takes_part s l z" if "z \<in> set (sbelow s key zs)" "takes_part s (Suc l) z" for z
  proof (cases "l = 0")
    case True
    from that(1) have "z \<in> set zs" by (auto simp: sbelow_def dest: set_takeWhileD)
    with clean True show ?thesis by simp
  next
    case False
    with that(2) show ?thesis by (simp add: takes_part_def)
  qed
  ultimately have "pred_at s key zs (Suc l) \<in> set (s_head # filter (takes_part s l) (sbelow s key zs))"
    by auto
  from Suc.IH [OF l this] contains_levels_step [OF walk] show ?case by simp
qed

lemma SkipList_contains_inv:
  fixes key :: u64
  assumes inv: "sl_inv s zs" and clean: "\<forall>z \<in> set zs. takes_part s 0 z"
  shows "SkipList_contains s key = Some (key \<in> live_keys s zs \<or> key = - 1)"
proof -
  have "contains_levels s key (MAX_LEVEL - 1) s_head = Some (Some (succ_at s key zs 0))"
    by (rule contains_levels_inv [OF inv clean]) simp_all
  then show ?thesis
    by (simp add: SkipList_contains_def sl_inv_found_iff [OF inv])
qed

subsection \<open>The skip list: the operations on the list of live items\<close>

lemma takes_part_slog_event [simp]: "takes_part (slog_event e s) = takes_part s"
  by (simp add: fun_eq_iff takes_part_def)

lemma key_order_slog_event [simp]: "key_order (slog_event e s) = key_order s"
  by (simp add: fun_eq_iff key_order_def)

lemma sl_inv_slog_event [simp]: "sl_inv (slog_event e s) zs = sl_inv s zs"
  by (simp add: sl_inv_def)

lemma sbelow_slog_event [simp]: "sbelow (slog_event e s) = sbelow s"
  by (simp add: fun_eq_iff sbelow_def)

lemma sfrom_slog_event [simp]: "sfrom (slog_event e s) = sfrom s"
  by (simp add: fun_eq_iff sfrom_def)

lemma live_keys_slog_event [simp]: "live_keys (slog_event e s) = live_keys s"
  by (simp add: fun_eq_iff live_keys_def)

lemma live_items_slog_event [simp]: "live_items (slog_event e s) = live_items s"
  by (simp add: fun_eq_iff live_items_def)

lemma sl_clean_slog_event [simp]: "sl_clean (slog_event e s) zs = sl_clean s zs"
  by (simp add: sl_clean_def)

lemma live_keys_items: "live_keys s zs = fst ` set (live_items s zs)"
  by (auto simp: live_keys_def live_items_def image_iff)

lemma randomLevel_le: "level \<le> maxIndex \<Longrightarrow> randomLevel coins maxIndex level \<le> maxIndex"
proof (induction coins maxIndex level rule: randomLevel.induct)
  case (1 coins maxIndex level)
  then show ?case by (subst randomLevel.simps) auto
qed

lemma sl_clean_new: "sl_clean SkipList_new []" "live_items SkipList_new [] = []"
  by (simp_all add: sl_clean_def sl_inv_def live_items_def SkipList_new_def s_head_def s_tail_def)

lemma live_items_append [simp]: "live_items s (xs @ ys) = live_items s xs @ live_items s ys"
  by (simp add: live_items_def)

lemma live_items_Cons:
  "live_items s (z # zs) =
     (if takes_part s 0 z then (skey (sheap s z), the (sdata (sheap s z))) # live_items s zs
      else live_items s zs)"
  by (simp add: live_items_def)

lemma live_items_cong:
  assumes "\<And>z. z \<in> set zs \<Longrightarrow> takes_part s' 0 z = takes_part s 0 z"
    and "\<And>z. z \<in> set zs \<Longrightarrow> skey (sheap s' z) = skey (sheap s z)"
    and "\<And>z. z \<in> set zs \<Longrightarrow> sdata (sheap s' z) = sdata (sheap s z)"
  shows "live_items s' zs = live_items s zs"
  using assms by (induction zs) (simp_all add: live_items_Cons live_items_def)

lemma live_items_keys: "p \<in> set (live_items s zs) \<Longrightarrow> \<exists>z \<in> set zs. fst p = skey (sheap s z)"
  by (auto simp: live_items_def)

lemma live_items_split:
  fixes k :: u64
  assumes inv: "sl_inv s zs"
  shows "live_items s (sbelow s k zs) = filter (\<lambda>p. fst p < k) (live_items s zs)"
    and "live_items s (sfrom s k zs) = filter (\<lambda>p. \<not> fst p < k) (live_items s zs)"
proof -
  note sp = sl_inv_split [OF inv, of k]
  have a: "\<forall>p \<in> set (live_items s (sbelow s k zs)). fst p < k"
    using sp(2) by (auto dest: live_items_keys)
  have b: "\<forall>p \<in> set (live_items s (sfrom s k zs)). \<not> fst p < k"
    using sp(3) by (auto dest: live_items_keys)
  have li: "live_items s zs = live_items s (sbelow s k zs) @ live_items s (sfrom s k zs)"
    by (subst sp(1)) simp
  from a b show "live_items s (sbelow s k zs) = filter (\<lambda>p. fst p < k) (live_items s zs)"
    unfolding li by (simp add: filter_empty_conv [THEN iffD2])
  from a b show "live_items s (sfrom s k zs) = filter (\<lambda>p. \<not> fst p < k) (live_items s zs)"
    unfolding li by (simp add: filter_empty_conv [THEN iffD2])
qed

lemma SkipList_add_at_abs:
  fixes key :: "32 word"
  assumes inv: "sl_inv s zs" and h: "h \<le> MAX_LEVEL"
  defines "k \<equiv> (scast key :: u64)"
  shows "if k \<in> fst ` set (live_items s zs) \<or> k = - 1
         then SkipList_add_at s h key x =
                Some (False, slog_event LeaveEpoch (slog_event EnterEpoch s))
         else (\<exists>s' zs'. SkipList_add_at s h key x = Some (True, s') \<and> sl_inv s' zs' \<and>
                 live_items s' zs' =
                   filter (\<lambda>p. fst p < k) (live_items s zs) @ (k, x) #
                   filter (\<lambda>p. \<not> fst p < k) (live_items s zs) \<and>
                 (list_all (takes_part s 0) zs \<longrightarrow> list_all (takes_part s' 0) zs'))"
proof -
  define s0 where "s0 = slog_event EnterEpoch s"
  have inv0: "sl_inv s0 zs" using inv by (simp add: s0_def)
  note loop = SkipList_add_loop_inv [OF inv0 h, of k x "\<lambda>_. None" "\<lambda>_. None"]
  show ?thesis
  proof (cases "k \<in> fst ` set (live_items s zs) \<or> k = - 1")
    case True
    then have "k \<in> live_keys s0 zs \<or> k = - 1" by (simp add: live_keys_items s0_def)
    with loop True show ?thesis by (simp add: SkipList_add_at_def s0_def k_def)
  next
    case False
    then have "\<not> (k \<in> live_keys s0 zs \<or> k = - 1)" by (simp add: live_keys_items s0_def)
    with loop obtain s' where s':
      "SkipList_add_loop s0 k x h None (\<lambda>_. None) (\<lambda>_. None) = Some (True, s')"
      "sl_inv s' (sbelow s0 k zs @ sfresh s0 # sfrom s0 k zs)"
      "\<And>z l. takes_part s' l z = (if z = sfresh s0 then l \<le> h else takes_part s0 l z)"
      "\<And>z. skey (sheap s' z) = (if z = sfresh s0 then k else skey (sheap s0 z))"
      "\<And>z. sdata (sheap s' z) = (if z = sfresh s0 then Some x else sdata (sheap s0 z))"
      by (simp only: if_False) blast
    define n where "n = sfresh s"
    define as where "as = sbelow s k zs"
    define bs where "bs = sfrom s k zs"
    note sp = sl_inv_split [OF inv, of k, folded as_def bs_def]
    have old: "z \<noteq> n" if "z \<in> set zs" for z
      using sl_invD(9) [OF inv that] by (simp add: n_def)
    have "set zs = set as \<union> set bs" by (subst sp(1)) simp
    then have sub: "set as \<subseteq> set zs" "set bs \<subseteq> set zs" by auto
    have inv': "sl_inv s' (as @ n # bs)"
      using s'(2) by (simp add: s0_def as_def bs_def n_def)
    have tp: "takes_part s' l z = (if z = n then l \<le> h else takes_part s l z)" for l z
      using s'(3) [of l z] by (simp add: s0_def n_def)
    have keys: "skey (sheap s' z) = (if z = n then k else skey (sheap s z))" for z
      using s'(4) [of z] by (simp add: s0_def n_def)
    have data: "sdata (sheap s' z) = (if z = n then Some x else sdata (sheap s z))" for z
      using s'(5) [of z] by (simp add: s0_def n_def)
    have la: "live_items s' as = live_items s as"
      using sub(1) old by (intro live_items_cong) (auto simp: tp keys data)
    have lb: "live_items s' bs = live_items s bs"
      using sub(2) old by (intro live_items_cong) (auto simp: tp keys data)
    have li: "live_items s' (as @ n # bs) =
                filter (\<lambda>p. fst p < k) (live_items s zs) @ (k, x) #
                filter (\<lambda>p. \<not> fst p < k) (live_items s zs)"
      using live_items_split [OF inv, of k]
      by (simp add: live_items_Cons la [unfolded as_def] lb [unfolded bs_def] tp keys data
            as_def bs_def)
    have cl: "list_all (takes_part s 0) zs \<longrightarrow> list_all (takes_part s' 0) (as @ n # bs)"
      using sub old by (auto simp: list_all_iff tp)
    have run: "SkipList_add_at s h key x = Some (True, s')"
      using s'(1) by (simp add: SkipList_add_at_def s0_def k_def)
    from False run inv' li cl show ?thesis by auto
  qed
qed

lemma SkipList_remove_abs:
  fixes k :: u64
  assumes inv: "sl_inv s zs" and k: "k \<noteq> - 1"
  shows "if k \<in> fst ` set (live_items s zs)
         then (\<exists>s' zs'. SkipList_remove s k = Some (True, s') \<and> sl_inv s' zs' \<and>
                 live_items s' zs' = filter (\<lambda>p. fst p \<noteq> k) (live_items s zs) \<and>
                 (list_all (takes_part s 0) zs \<longrightarrow> list_all (takes_part s' 0) zs'))
         else SkipList_remove s k = Some (False, slog_event LeaveEpoch (slog_event EnterEpoch s))"
proof -
  define s0 where "s0 = slog_event EnterEpoch s"
  have inv0: "sl_inv s0 zs" using inv by (simp add: s0_def)
  note loop = SkipList_remove_loop_inv [OF inv0 k, of "\<lambda>_. None" "\<lambda>_. None"]
  show ?thesis
  proof (cases "k \<in> fst ` set (live_items s zs)")
    case False
    then have "k \<notin> live_keys s0 zs" by (simp add: live_keys_items s0_def)
    with loop False show ?thesis by (simp add: SkipList_remove_def s0_def)
  next
    case True
    then have "k \<in> live_keys s0 zs" by (simp add: live_keys_items s0_def)
    with loop obtain s' c bs where s':
      "SkipList_remove_loop s0 k (\<lambda>_. None) (\<lambda>_. None) = Some (True, s')"
      "sfrom s0 k zs = c # bs" "skey (sheap s0 c) = k" "takes_part s0 0 c"
      "sl_inv s' (sbelow s0 k zs @ bs)"
      "\<And>z l. z \<noteq> c \<Longrightarrow> takes_part s' l z = takes_part s l z"
      "same_nodes s0 s'"
      by (simp only: if_True) (auto simp: s0_def)
    define as where "as = sbelow s k zs"
    from s'(2) have sf: "sfrom s k zs = c # bs" by (simp add: s0_def)
    from s'(3,4) have c: "skey (sheap s c) = k" "takes_part s 0 c" by (simp_all add: s0_def)
    note sp = sl_inv_split [OF inv, of k, folded as_def, unfolded sf]
    have dist: "distinct (as @ c # bs)"
      using sl_invD(5) [OF inv] by (subst (asm) sp(1))
    then have cn: "c \<notin> set as" "c \<notin> set bs" by simp_all
    have inv': "sl_inv s' (as @ bs)"
      using s'(5) by (simp add: s0_def as_def)
    have same: "skey (sheap s' z) = skey (sheap s z)" "sdata (sheap s' z) = sdata (sheap s z)" for z
      using s'(7) by (simp_all add: same_nodes_def s0_def)
    have la: "live_items s' as = live_items s as"
    proof (rule live_items_cong)
      fix z assume "z \<in> set as"
      with cn(1) have "z \<noteq> c" by auto
      then show "takes_part s' 0 z = takes_part s 0 z" by (rule s'(6))
    qed (simp_all add: same)
    have lb: "live_items s' bs = live_items s bs"
    proof (rule live_items_cong)
      fix z assume "z \<in> set bs"
      with cn(2) have "z \<noteq> c" by auto
      then show "takes_part s' 0 z = takes_part s 0 z" by (rule s'(6))
    qed (simp_all add: same)
    have ka: "\<forall>p \<in> set (live_items s as). fst p \<noteq> k"
    proof
      fix p assume "p \<in> set (live_items s as)"
      from live_items_keys [OF this] obtain z where "z \<in> set as" "fst p = skey (sheap s z)"
        by blast
      with sp(2) show "fst p \<noteq> k" by auto
    qed
    have kb: "\<forall>p \<in> set (live_items s bs). fst p \<noteq> k"
    proof
      fix p assume "p \<in> set (live_items s bs)"
      then obtain z where z: "z \<in> set bs" "takes_part s 0 z" "fst p = skey (sheap s z)"
        by (auto simp: live_items_def)
      have "sorted_wrt (key_order s) (as @ c # bs)"
        using sl_invD(13) [OF inv] by (subst (asm) sp(1))
      with z(1) have "key_order s c z" by (simp add: sorted_wrt_append)
      with z(2,3) c(1) show "fst p \<noteq> k" by (auto simp: key_order_def takes_part_def)
    qed
    have "live_items s zs =
            live_items s as @ (k, the (sdata (sheap s c))) # live_items s bs"
      by (subst sp(1)) (simp add: live_items_Cons c)
    then have li: "live_items s' (as @ bs) = filter (\<lambda>p. fst p \<noteq> k) (live_items s zs)"
      using ka kb by (simp add: la lb filter_id_conv [THEN iffD2])
    have "set zs = insert c (set as \<union> set bs)" by (subst sp(1)) simp
    then have sub: "set (as @ bs) \<subseteq> set zs" by auto
    have cl: "list_all (takes_part s 0) zs \<longrightarrow> list_all (takes_part s' 0) (as @ bs)"
    proof
      assume a: "list_all (takes_part s 0) zs"
      show "list_all (takes_part s' 0) (as @ bs)"
        unfolding list_all_iff
      proof
        fix z assume z: "z \<in> set (as @ bs)"
        with cn have "z \<noteq> c" by auto
        from s'(6) [OF this, of 0] a z sub show "takes_part s' 0 z"
          by (auto simp: list_all_iff)
      qed
    qed
    have run: "SkipList_remove s k = Some (True, s')"
      using s'(1) by (simp add: SkipList_remove_def s0_def)
    from True run inv' li cl show ?thesis by auto
  qed
qed

lemma SkipList_popMin_abs:
  assumes inv: "sl_inv s zs"
  shows "case live_items s zs of
           [] \<Rightarrow> SkipList_popMin s = Some (None, s)
         | p # rest \<Rightarrow>
             (\<exists>s'. SkipList_popMin s = Some (Some (snd p), s') \<and> sl_inv s' zs \<and>
                    live_items s' zs = rest)"
proof (cases "filter (takes_part s 0) zs")
  case Nil
  with SkipList_popMin_inv [OF inv] show ?thesis by (simp add: live_items_def)
next
  case (Cons c ys)
  with SkipList_popMin_inv [OF inv] obtain s' where s':
    "SkipList_popMin s = Some (sdata (sheap s c), s')" "sl_inv s' zs"
    "\<And>z l. z \<in> set zs \<Longrightarrow> takes_part s' l z = (takes_part s l z \<and> \<not> (z = c \<and> l = 0))"
    "same_nodes s s'"
    by auto
  from Cons have "c \<in> set (filter (takes_part s 0) zs)" by simp
  then have czs: "c \<in> set zs" by simp
  from sl_invD(12) [OF inv czs] obtain v where v: "sdata (sheap s c) = Some v" by auto
  have "filter (takes_part s' 0) zs = filter (\<lambda>z. z \<noteq> c) (filter (takes_part s 0) zs)"
    unfolding filter_filter by (rule filter_cong [OF refl]) (auto simp: s'(3))
  also have "\<dots> = filter (\<lambda>z. z \<noteq> c) ys" by (simp add: Cons)
  also have "\<dots> = ys"
  proof (rule filter_True)
    from sl_invD(5) [OF inv] have "distinct (filter (takes_part s 0) zs)" by simp
    then show "\<forall>x \<in> set ys. x \<noteq> c" unfolding Cons by auto
  qed
  finally have f: "filter (takes_part s' 0) zs = ys" .
  have "live_items s' zs = map (\<lambda>z. (skey (sheap s z), the (sdata (sheap s z)))) ys"
    using s'(4) by (simp add: live_items_def f same_nodes_def)
  moreover have "live_items s zs =
      (skey (sheap s c), v) # map (\<lambda>z. (skey (sheap s z), the (sdata (sheap s z)))) ys"
    by (simp add: live_items_def Cons v)
  ultimately show ?thesis using s'(1,2) v by simp
qed

lemma SkipList_contains_abs:
  fixes k :: u64
  assumes "sl_clean s zs"
  shows "SkipList_contains s k = Some (k \<in> fst ` set (live_items s zs) \<or> k = - 1)"
proof -
  from assms have inv: "sl_inv s zs" and clean: "\<forall>z \<in> set zs. takes_part s 0 z"
    by (simp_all add: sl_clean_def list_all_iff)
  from SkipList_contains_inv [OF inv clean, of k] show ?thesis
    by (simp add: live_keys_items)
qed

lemma SkipList_add_new_key:
  fixes key :: "32 word" and k :: u64
  assumes "\<exists>zs. sl_clean s zs \<and> live_items s zs = items"
    and "scast key = k" and "k \<notin> fst ` set items" and "k \<noteq> - 1"
  shows "\<exists>s'. SkipList_add s coins key x = Some (True, s') \<and>
              (\<exists>zs. sl_clean s' zs \<and>
                    live_items s' zs =
                      filter (\<lambda>p. fst p < k) items @ (k, x) # filter (\<lambda>p. \<not> fst p < k) items)"
proof -
  from assms(1) obtain zs where zs: "sl_inv s zs" "list_all (takes_part s 0) zs"
    "live_items s zs = items" by (auto simp: sl_clean_def)
  have h: "randomLevel coins MAX_LEVEL 0 \<le> MAX_LEVEL" by (rule randomLevel_le) simp
  from SkipList_add_at_abs [OF zs(1) h, of key x] assms(2-4) zs(2,3)
  show ?thesis by (auto simp: SkipList_add_def sl_clean_def)
qed

lemma SkipList_contains_clean:
  fixes k :: u64
  assumes "\<exists>zs. sl_clean s zs \<and> live_items s zs = items" and "k \<noteq> - 1"
  shows "SkipList_contains s k = Some (k \<in> fst ` set items)"
  using assms SkipList_contains_abs [of s _ k] by auto

lemma SkipList_remove_clean:
  fixes k :: u64
  assumes "\<exists>zs. sl_clean s zs \<and> live_items s zs = items" and "k \<noteq> - 1"
  shows "\<exists>s'. SkipList_remove s k = Some (k \<in> fst ` set items, s') \<and>
              (\<exists>zs. sl_clean s' zs \<and> live_items s' zs = filter (\<lambda>p. fst p \<noteq> k) items)"
proof -
  from assms(1) obtain zs where zs: "sl_inv s zs" "list_all (takes_part s 0) zs"
    "live_items s zs = items" by (auto simp: sl_clean_def)
  show ?thesis
  proof (cases "k \<in> fst ` set items")
    case True
    with SkipList_remove_abs [OF zs(1) assms(2)] zs(2,3) show ?thesis
      by (auto simp: sl_clean_def)
  next
    case False
    then have "filter (\<lambda>p. fst p \<noteq> k) items = items"
      by (auto simp: filter_id_conv)
    moreover have "sl_clean (slog_event LeaveEpoch (slog_event EnterEpoch s)) zs"
      using zs(1,2) by (simp add: sl_clean_def)
    ultimately show ?thesis
      using SkipList_remove_abs [OF zs(1) assms(2)] zs(3) False
      by (auto intro!: exI [where x = zs])
  qed
qed

lemma SkipList_popMin_items:
  assumes "\<exists>zs. sl_inv s zs \<and> live_items s zs = items"
  shows "\<exists>s'. SkipList_popMin s = Some (map_option snd (if items = [] then None else Some (hd items)), s') \<and>
              (\<exists>zs. sl_inv s' zs \<and> live_items s' zs = tl items)"
proof -
  from assms obtain zs where zs: "sl_inv s zs" "live_items s zs = items" by auto
  from SkipList_popMin_abs [OF zs(1)] zs show ?thesis
    by (cases items) auto
qed

lemma sl_clean_inv: "\<exists>zs. sl_clean s zs \<and> live_items s zs = items \<Longrightarrow>
  \<exists>zs. sl_inv s zs \<and> live_items s zs = items"
  by (auto simp: sl_clean_def)

subsection \<open>Two states with the invariants\<close>

lemma skiplist_1_2_items:
  "\<exists>zs. sl_clean skiplist_1_2 zs \<and> live_items skiplist_1_2 zs = [(1, 10), (2, 20)]"
proof -
  have a0: "sl_inv (SkipList_new :: nat skiplist) []" "list_all (takes_part (SkipList_new :: nat skiplist) 0) []"
    using sl_clean_new(1) by (simp_all add: sl_clean_def)
  have e0: "live_items (SkipList_new :: nat skiplist) [] = []" by (rule sl_clean_new(2))
  from SkipList_add_at_abs [OF a0(1), of 1 1 10] e0
  obtain s1 :: "nat skiplist" and zs1
    where s1: "SkipList_add_at SkipList_new 1 1 10 = Some (True, s1)"
    "sl_inv s1 zs1" "live_items s1 zs1 = [(1, 10)]" "list_all (takes_part s1 0) zs1"
    by (auto simp: MAX_LEVEL_def)
  from SkipList_add_at_abs [OF s1(2), of 0 2 20] s1(3,4)
  obtain s2 zs2 where s2: "SkipList_add_at s1 0 2 20 = Some (True, s2)"
    "sl_inv s2 zs2" "live_items s2 zs2 = [(1, 10), (2, 20)]" "list_all (takes_part s2 0) zs2"
    by (auto simp: MAX_LEVEL_def)
  from s1(1) s2 show ?thesis
    by (auto simp: skiplist_1_2_def sl_clean_def)
qed

lemma list_5_inv:
  "\<exists>x. list_inv (snd (the (List_add (List_new (0::nat)) 5 7))) [x] \<and>
       lkey (lheap (snd (the (List_add (List_new (0::nat)) 5 7))) x) = 5"
  using List_add_inv [OF list_inv_new, of "0::nat" 5 7]
  by (auto simp: lbelow_def lfrom_def)


section \<open>Claims settled by running the operations\<close>

text \<open>
  Claim C1 (reads return false/none for a key whose node is marked, in both containers).
  In the list state \<open>list_5_marked\<close> the node of key 5 is marked and still linked.
  \<open>List::contains\<close> reads the mark of the node it stops at and answers false, but
  \<open>List::get\<close> tests the mark it read from the predecessor's cell (here the head's,
  which is clear) and returns the pointer into the marked node.
\<close>

theorem C1_List_get_ignores_mark:
  "getMark (lnx list_5_marked 2) \<and> lkey (lheap list_5_marked 2) = 5 \<and>
   List_contains list_5_marked 5 = Some False \<and>
   List_get list_5_marked 5 = Some (Some 2)"
  by (simp add: list_5_marked_def list_eval)

text \<open>
  Claim C2 (every node handed to retire is unlinked at every level).  After \<open>add(1, 10)\<close>
  with height 1 on a fresh skip list, \<open>popMin\<close> returns the value, retires the node
  (address 2), and the head's cell of level 1 still points to that node, unmarked.
\<close>

theorem C2_popMin_retires_linked_node:
  "(case SkipList_add_at SkipList_new 1 1 (10::nat) of
      None \<Rightarrow> False
    | Some (b, s) \<Rightarrow>
        (case SkipList_popMin s of
           None \<Rightarrow> False
         | Some (v, s') \<Rightarrow>
             b \<and> v = Some 10 \<and> slog s' = RetireNode 2 # slog s \<and>
             snx s' s_head 1 = (Some 2, False)))"
  by (simp add: skiplist_eval)

text \<open>
  Claim C3 (add, contains and get work for every key strictly between the sentinels).
  On a fresh skip list \<open>add(2^31, 7)\<close> returns true, after which \<open>contains(2^31)\<close> is
  false and \<open>get(2^31)\<close> is null: the key went through the \<open>int\<close> parameter of \<open>add\<close>
  and was stored sign-extended.  \<open>add(2^32 - 1, 7)\<close> returns false: the key became the
  tail's.
\<close>

theorem C3_add_truncates_key:
  "(case SkipList_add_u64 SkipList_new 0 2147483648 (7::nat) of
      None \<Rightarrow> False
    | Some (b, s) \<Rightarrow>
        b \<and> SkipList_contains s 2147483648 = Some False \<and>
        SkipList_get s 2147483648 = Some None) \<and>
   map_option fst (SkipList_add_u64 SkipList_new 0 4294967295 (7::nat)) = Some False"
  by (simp add: skiplist_eval)

text \<open>
  Claim C6 (every mutating operation that enters the reclaimer leaves it before it
  returns).  The second \<open>add(5, _)\<close> on the list returns false from the duplicate branch,
  which has no \<open>leaveEpoch\<close>: the log holds one more enter than leave.
\<close>

theorem C6_List_add_duplicate_no_leave:
  "(case List_add (List_new 0) 5 (7::nat) of
      None \<Rightarrow> False
    | Some (b, s) \<Rightarrow>
        (case List_add s 5 8 of
           None \<Rightarrow> False
         | Some (b', s') \<Rightarrow> b \<and> \<not> b' \<and> depth (llog s') = depth (llog s) + 1))"
  by (simp add: list_eval)

text \<open>
  Claim C8 (after a successful \<open>add(k, a)\<close>, a second add is rejected and \<open>get(k)\<close>
  returns \<open>a\<close>).  Two runs in which both adds answer as claimed and \<open>get\<close> returns null:
  key \<open>2^31\<close> on a fresh skip list (the key is stored sign-extended), and key 5 after
  \<open>add(3, 9)\<close> with height 1 and \<open>popMin\<close> (the search of \<open>get\<close> descends from the
  popped node, which is still linked at level 1, along its stale level-0 pointer).
\<close>

theorem C8_get_misses_inserted_key:
  "(case SkipList_add_u64 SkipList_new 0 2147483648 (7::nat) of
      None \<Rightarrow> False
    | Some (b, s) \<Rightarrow>
        (case SkipList_add_u64 s 0 2147483648 8 of
           None \<Rightarrow> False
         | Some (b', s') \<Rightarrow> b \<and> \<not> b' \<and> SkipList_get s' 2147483648 = Some None)) \<and>
   (case SkipList_add_u64 SkipList_new 1 3 (9::nat) of
      None \<Rightarrow> False
    | Some (b0, s0) \<Rightarrow>
        (case SkipList_popMin s0 of
           None \<Rightarrow> False
         | Some (v, s1) \<Rightarrow>
             (case SkipList_add_u64 s1 0 5 7 of
                None \<Rightarrow> False
              | Some (b, s) \<Rightarrow>
                  (case SkipList_add_u64 s 0 5 8 of
                     None \<Rightarrow> False
                   | Some (b', s') \<Rightarrow>
                       b \<and> \<not> b' \<and> SkipList_get s' 5 = Some None))))"
  by (simp add: skiplist_eval)

section \<open>Claims about the ordered list\<close>

text \<open>
  In every list state left by completed calls of \<open>add\<close> and \<open>remove\<close> with user keys,
  the new list included, the reads at the reserved keys find the sentinels.
\<close>

lemma lreach_sentinel_reads:
  assumes "lreach s"
  shows "List_contains s 0 = Some True \<and>
         List_get s 0 = Some (Some l_head) \<and>
         List_get s (- 1) = Some (Some l_tail)"
proof -
  from lreach_inv [OF assms] obtain xs where "list_inv s xs" ..
  from list_inv_sentinel_reads [OF this] show ?thesis by simp
qed

lemma lreach_example: "lreach (list_5_added_removed)"
proof -
  obtain s1 where s1: "List_add (List_new (0::nat)) 5 7 = Some (True, s1)"
    by (simp add: list_eval)
  have r1: "lreach s1"
    by (rule lreach_add [OF lreach_new _ _ s1]) simp_all
  from lreach_inv [OF r1] obtain xs where "list_inv s1 xs" ..
  from List_remove_inv [OF this, of 5] obtain b s2 where s2: "List_remove s1 5 = Some (b, s2)"
    by auto
  have "lreach s2"
    by (rule lreach_remove [OF r1 _ _ s2]) simp_all
  with s1 s2 show ?thesis by (simp add: list_5_added_removed_def)
qed

text \<open>
  Claim C10 (in every reachable list state \<open>contains(0)\<close> is true and \<open>get(0)\<close> and
  \<open>get(UINT64_MAX)\<close> return the sentinels' payloads).  After \<open>add(5, 7)\<close> the three reads
  answer so.  In \<open>list_5_marked\<close>, where the node of key 5 (address 2) is marked and
  still linked before the tail, \<open>contains(0)\<close> and \<open>get(0)\<close> still answer so, but
  \<open>get(UINT64_MAX)\<close> returns null: the walk of \<open>List::get\<close> leaves the marked node last,
  and the mark it tests is the one it read from that node's cell, not the tail's own.
\<close>

theorem C10_get_max_null_behind_marked_node:
  "List_contains (snd (the (List_add (List_new (0::nat)) 5 7))) 0 = Some True \<and>
   List_get (snd (the (List_add (List_new (0::nat)) 5 7))) 0 = Some (Some l_head) \<and>
   List_get (snd (the (List_add (List_new (0::nat)) 5 7))) (- 1) = Some (Some l_tail) \<and>
   lnx list_5_marked l_head = (Some 2, False) \<and>
   lnx list_5_marked 2 = (Some l_tail, True) \<and>
   lnx list_5_marked l_tail = (None, False) \<and>
   List_contains list_5_marked 0 = Some True \<and>
   List_get list_5_marked 0 = Some (Some l_head) \<and>
   List_get list_5_marked (- 1) = Some None"
  by (simp add: list_5_marked_def list_eval flip: word_order.not_eq_extremum)

section \<open>Claims about \<open>popMin\<close>\<close>

text \<open>
  Claim C4.  In a state with the level-0 invariant over the live nodes \<open>xs\<close>: if \<open>xs\<close> is
  empty (the bottom level holds only the sentinels), \<open>popMin\<close> returns null and changes
  nothing; otherwise it returns the (non-null) value of the first node, whose key is
  below every other live key, and leaves the invariant over the remaining nodes; and
  the loop that calls \<open>popMin\<close> until it returns null yields the values of all nodes of
  \<open>xs\<close> in the order of \<open>xs\<close>, that is by strictly increasing key, and leaves the
  bottom level empty.
\<close>

theorem C4_popMin_takes_minimum:
  assumes "level0_inv s xs"
  shows "(xs = [] \<longrightarrow> SkipList_popMin s = Some (None, s)) \<and>
         (\<forall>x xs'. xs = x # xs' \<longrightarrow>
            (\<exists>v s'. SkipList_popMin s = Some (Some v, s') \<and> sdata (sheap s x) = Some v \<and>
                    (\<forall>y \<in> set xs'. skey (sheap s x) < skey (sheap s y)) \<and>
                    level0_inv s' xs')) \<and>
         (\<exists>s'. popMin_drain s [] = Some (map (\<lambda>x. the (sdata (sheap s x))) xs, s') \<and>
               level0_inv s' []) \<and>
         sorted_wrt (<) (map (\<lambda>x. skey (sheap s x)) xs)"
proof (intro conjI allI impI)
  assume "xs = []"
  with assms SkipList_popMin_nil show "SkipList_popMin s = Some (None, s)" by blast
next
  fix x xs' assume xs: "xs = x # xs'"
  with assms have inv: "level0_inv s (x # xs')" by simp
  then obtain v where v: "sdata (sheap s x) = Some v"
    by (auto simp: level0_inv_def)
  from inv have "\<forall>y \<in> set xs'. skey (sheap s x) < skey (sheap s y)"
    by (simp add: level0_inv_def)
  with SkipList_popMin_cons [OF inv] v
  show "\<exists>v s'. SkipList_popMin s = Some (Some v, s') \<and> sdata (sheap s x) = Some v \<and>
                (\<forall>y \<in> set xs'. skey (sheap s x) < skey (sheap s y)) \<and> level0_inv s' xs'"
    by auto
next
  from popMin_drain_inv [OF assms, of "[]"]
  show "\<exists>s'. popMin_drain s [] = Some (map (\<lambda>x. the (sdata (sheap s x))) xs, s') \<and>
             level0_inv s' []"
    by simp
next
  from assms show "sorted_wrt (<) (map (\<lambda>x. skey (sheap s x)) xs)"
    by (simp add: level0_inv_def)
qed

lemma skiplist_1_2_level0:
  "let s = skiplist_1_2 in
     level0_inv s [2, 3] \<and>
     map (\<lambda>x. sdata (sheap s x)) [2, 3] = [Some 10, Some 20] \<and>
     map (\<lambda>x. skey (sheap s x)) [2, 3] = [1, 2]"
  by (simp add: skiplist_1_2_def level0_inv_def skiplist_eval)

theorem C4_witness:
  "(\<exists>s'. SkipList_popMin skiplist_1_2 = Some (Some 10, s') \<and> level0_inv s' [3]) \<and>
   (\<exists>s'. popMin_drain skiplist_1_2 [] = Some ([10, 20], s') \<and> level0_inv s' [])"
  using C4_popMin_takes_minimum [of skiplist_1_2 "[2, 3]"]
    skiplist_1_2_level0 [unfolded Let_def]
  by auto

section \<open>Claims about \<open>remove\<close>\<close>

text \<open>
  Claim C5.  For a key \<open>k\<close> other than the tail's reserved \<open>UINT64_MAX\<close>: on a list
  with the invariant over its nodes \<open>xs\<close>, \<open>remove(k)\<close> returns true exactly when a node
  of \<open>xs\<close> has the key \<open>k\<close>, and when it returns false the store is the one before and
  the invariant holds over the same nodes; on a skip list with the invariant over \<open>zs\<close>,
  \<open>remove(k)\<close> returns true exactly when \<open>k\<close> is the key of a node of \<open>zs\<close> that is not
  marked at level 0, and when it returns false the store, the invariant and the live
  keys with their values are the ones before.
\<close>

theorem C5_remove_true_iff_live_key:
  fixes k :: u64
  assumes "k \<noteq> - 1"
  shows "(list_inv s xs \<longrightarrow>
            (\<exists>s'. List_remove s k = Some (k \<in> (\<lambda>x. lkey (lheap s x)) ` set xs, s') \<and>
                  (k \<notin> (\<lambda>x. lkey (lheap s x)) ` set xs \<longrightarrow>
                     lheap s' = lheap s \<and> list_inv s' xs))) \<and>
         (sl_inv t zs \<longrightarrow>
            (\<exists>t'. SkipList_remove t k = Some (k \<in> live_keys t zs, t') \<and>
                  (k \<notin> live_keys t zs \<longrightarrow>
                     sheap t' = sheap t \<and> sl_inv t' zs \<and> live_items t' zs = live_items t zs)))"
proof (intro conjI impI)
  assume inv: "list_inv s xs"
  let ?keys = "(\<lambda>x. lkey (lheap s x)) ` set xs"
  from List_remove_inv [OF inv assms] obtain b s' where r: "List_remove s k = Some (b, s')"
    "b \<longleftrightarrow> k \<in> ?keys" "list_inv s' (filter (\<lambda>x. lkey (lheap s x) \<noteq> k) xs)"
    "\<not> b \<longrightarrow> lheap s' = lheap s"
    by blast
  have "filter (\<lambda>x. lkey (lheap s x) \<noteq> k) xs = xs" if "k \<notin> ?keys"
    using that by (auto simp: filter_id_conv)
  with r show "\<exists>s'. List_remove s k = Some (k \<in> ?keys, s') \<and>
                 (k \<notin> ?keys \<longrightarrow> lheap s' = lheap s \<and> list_inv s' xs)"
    by auto
next
  assume inv: "sl_inv t zs"
  show "\<exists>t'. SkipList_remove t k = Some (k \<in> live_keys t zs, t') \<and>
             (k \<notin> live_keys t zs \<longrightarrow>
                sheap t' = sheap t \<and> sl_inv t' zs \<and> live_items t' zs = live_items t zs)"
  proof (cases "k \<in> live_keys t zs")
    case True
    with SkipList_remove_abs [OF inv assms] show ?thesis
      by (auto simp: live_keys_items)
  next
    case False
    with SkipList_remove_abs [OF inv assms] inv show ?thesis
      by (simp add: live_keys_items)
  qed
qed

theorem C5_witness:
  "(\<exists>s'. List_remove (snd (the (List_add (List_new (0::nat)) 5 7))) 5 = Some (True, s')) \<and>
   (\<exists>s'. List_remove (List_new (0::nat)) 5 = Some (False, s') \<and>
         lheap s' = lheap (List_new (0::nat))) \<and>
   (\<exists>t'. SkipList_remove skiplist_1_2 2 = Some (True, t')) \<and>
   (\<exists>t'. SkipList_remove skiplist_1_2 7 = Some (False, t') \<and> sheap t' = sheap skiplist_1_2)"
proof -
  from list_5_inv obtain x
    where x: "list_inv (snd (the (List_add (List_new (0::nat)) 5 7))) [x]"
      "lkey (lheap (snd (the (List_add (List_new (0::nat)) 5 7))) x) = 5"
    by blast
  from skiplist_1_2_items obtain zs
    where zs: "sl_inv skiplist_1_2 zs" "live_items skiplist_1_2 zs = [(1, 10), (2, 20)]"
    by (auto simp: sl_clean_def)
  have ne: "(5 :: u64) \<noteq> - 1" "(2 :: u64) \<noteq> - 1" "(7 :: u64) \<noteq> - 1" by simp_all
  from C5_remove_true_iff_live_key [OF ne(1), THEN conjunct1, THEN mp, OF x(1)] x(2)
  have 1: "\<exists>s'. List_remove (snd (the (List_add (List_new (0::nat)) 5 7))) 5 = Some (True, s')"
    by simp
  from C5_remove_true_iff_live_key [OF ne(1), THEN conjunct1, THEN mp, OF list_inv_new [of "0::nat"]]
  have 2: "\<exists>s'. List_remove (List_new (0::nat)) 5 = Some (False, s') \<and>
                lheap s' = lheap (List_new (0::nat))"
    by auto
  from C5_remove_true_iff_live_key [OF ne(2), THEN conjunct2, THEN mp, OF zs(1)] zs(2)
  have 3: "\<exists>t'. SkipList_remove skiplist_1_2 2 = Some (True, t')"
    by (simp add: live_keys_items)
  from C5_remove_true_iff_live_key [OF ne(3), THEN conjunct2, THEN mp, OF zs(1)] zs(2)
  have 4: "\<exists>t'. SkipList_remove skiplist_1_2 7 = Some (False, t') \<and> sheap t' = sheap skiplist_1_2"
    by (auto simp: live_keys_items)
  from 1 2 3 4 show ?thesis by simp
qed


section \<open>Claims about the structural invariant\<close>

text \<open>
  Claim C7.  Every operation leaves the structural invariant in place.  On a list
  with the invariant over \<open>xs\<close> (the unmarked chain from the head through \<open>xs\<close> to the
  tail, with strictly increasing keys), \<open>add\<close> with any key and \<open>remove\<close> with a key
  other than the tail's \<open>UINT64_MAX\<close> return, and the invariant holds afterwards over
  some list of nodes.  On a skip list with the invariant over \<open>zs\<close>, the nodes that are
  unmarked at level 0 form the level-0 chain from the head to the tail with strictly
  increasing keys; \<open>add\<close> with any \<open>int\<close> key and any outcome of \<open>randomLevel\<close>,
  \<open>remove\<close> with a key other than \<open>UINT64_MAX\<close>, and \<open>popMin\<close> return, and afterwards the
  invariant and with it the level-0 property hold again.  \<open>contains\<close> and \<open>get\<close> make no
  store: in the model they are functions from the state to the answer alone.
\<close>

theorem C7_operations_keep_invariant:
  fixes k :: u64 and key :: "32 word"
  assumes "k \<noteq> - 1"
  shows "(list_inv s xs \<longrightarrow>
            (\<exists>b s' xs'. List_add s k v = Some (b, s') \<and> list_inv s' xs') \<and>
            (\<exists>b s' xs'. List_remove s k = Some (b, s') \<and> list_inv s' xs')) \<and>
         (sl_inv t zs \<longrightarrow>
            level0_inv t (filter (takes_part t 0) zs) \<and>
            (\<exists>b t' zs'. SkipList_add t coins key x = Some (b, t') \<and> sl_inv t' zs' \<and>
                        level0_inv t' (filter (takes_part t' 0) zs')) \<and>
            (\<exists>b t' zs'. SkipList_remove t k = Some (b, t') \<and> sl_inv t' zs' \<and>
                        level0_inv t' (filter (takes_part t' 0) zs')) \<and>
            (\<exists>r t'. SkipList_popMin t = Some (r, t') \<and> sl_inv t' zs \<and>
                    level0_inv t' (filter (takes_part t' 0) zs)))"
proof (intro conjI impI)
  assume inv: "list_inv s xs"
  from List_add_inv [OF inv, of k v]
  show "\<exists>b s' xs'. List_add s k v = Some (b, s') \<and> list_inv s' xs'"
    by (auto split: if_splits)
  from List_remove_inv [OF inv assms]
  show "\<exists>b s' xs'. List_remove s k = Some (b, s') \<and> list_inv s' xs'"
    by blast
next
  assume inv: "sl_inv t zs"
  then show "level0_inv t (filter (takes_part t 0) zs)" by (rule sl_inv_level0)
  have h: "randomLevel coins MAX_LEVEL 0 \<le> MAX_LEVEL" by (rule randomLevel_le) simp
  have "\<exists>b t' zs'. SkipList_add t coins key x = Some (b, t') \<and> sl_inv t' zs'"
  proof (cases "scast key \<in> fst ` set (live_items t zs) \<or> (scast key :: u64) = - 1")
    case True
    with SkipList_add_at_abs [OF inv h, of key x] inv show ?thesis
      by (auto simp: SkipList_add_def intro!: exI [where x = zs])
  next
    case False
    with SkipList_add_at_abs [OF inv h, of key x] show ?thesis
      by (auto simp: SkipList_add_def)
  qed
  then show "\<exists>b t' zs'. SkipList_add t coins key x = Some (b, t') \<and> sl_inv t' zs' \<and>
                level0_inv t' (filter (takes_part t' 0) zs')"
    using sl_inv_level0 by blast
  have "\<exists>b t' zs'. SkipList_remove t k = Some (b, t') \<and> sl_inv t' zs'"
  proof (cases "k \<in> fst ` set (live_items t zs)")
    case True
    with SkipList_remove_abs [OF inv assms] show ?thesis by auto
  next
    case False
    with SkipList_remove_abs [OF inv assms] inv show ?thesis
      by (auto intro!: exI [where x = zs])
  qed
  then show "\<exists>b t' zs'. SkipList_remove t k = Some (b, t') \<and> sl_inv t' zs' \<and>
                level0_inv t' (filter (takes_part t' 0) zs')"
    using sl_inv_level0 by blast
  have "\<exists>r t'. SkipList_popMin t = Some (r, t') \<and> sl_inv t' zs"
    using SkipList_popMin_abs [OF inv] inv by (cases "live_items t zs") auto
  then show "\<exists>r t'. SkipList_popMin t = Some (r, t') \<and> sl_inv t' zs \<and>
                level0_inv t' (filter (takes_part t' 0) zs)"
    using sl_inv_level0 by blast
qed

theorem C7_witness:
  "(\<exists>b s' xs'. List_add (snd (the (List_add (List_new (0::nat)) 5 7))) 3 8 = Some (b, s') \<and>
               list_inv s' xs') \<and>
   (\<exists>b s' xs'. List_remove (snd (the (List_add (List_new (0::nat)) 5 7))) 3 = Some (b, s') \<and>
               list_inv s' xs') \<and>
   (\<exists>b t' zs'. SkipList_add skiplist_1_2 (\<lambda>_. True) 3 30 = Some (b, t') \<and> sl_inv t' zs') \<and>
   (\<exists>b t' zs'. SkipList_remove skiplist_1_2 3 = Some (b, t') \<and> sl_inv t' zs') \<and>
   (\<exists>r t' zs. SkipList_popMin skiplist_1_2 = Some (r, t') \<and> sl_inv t' zs)"
proof -
  from list_5_inv obtain x
    where x: "list_inv (snd (the (List_add (List_new (0::nat)) 5 7))) [x]"
    by blast
  from skiplist_1_2_items obtain zs where zs: "sl_inv skiplist_1_2 zs"
    by (auto simp: sl_clean_def)
  have ne: "(3 :: u64) \<noteq> - 1" by simp
  note l = C7_operations_keep_invariant [OF ne, THEN conjunct1, THEN mp, OF x, of 8]
  note r = C7_operations_keep_invariant [OF ne, THEN conjunct2, THEN mp, OF zs,
      of "\<lambda>_. True" 3 30]
  from l r show ?thesis by blast
qed


section \<open>Claims about sequences of skip-list operations\<close>

text \<open>
  Claim C9.  On a new skip list, whatever heights \<open>randomLevel\<close> draws for the three
  nodes (the coin sequences \<open>c1\<close>, \<open>c2\<close>, \<open>c3\<close>) and whatever the values are: the
  insertions of the keys 1, 3 and 2 succeed; then \<open>contains(2)\<close> is true and
  \<open>contains(4)\<close> false; \<open>remove(3)\<close> returns true and a second \<open>remove(3)\<close> false; and
  \<open>popMin\<close> returns the value stored with key 1, then the value stored with key 2, then
  null.
\<close>

theorem C9_single_threaded_smoke:
  "\<exists>s1 s2 s3 s4 s5 s6 s7 s8 :: 'v skiplist.
     SkipList_add SkipList_new c1 1 v1 = Some (True, s1) \<and>
     SkipList_add s1 c2 3 v3 = Some (True, s2) \<and>
     SkipList_add s2 c3 2 v2 = Some (True, s3) \<and>
     SkipList_contains s3 2 = Some True \<and>
     SkipList_contains s3 4 = Some False \<and>
     SkipList_remove s3 3 = Some (True, s4) \<and>
     SkipList_remove s4 3 = Some (False, s5) \<and>
     SkipList_popMin s5 = Some (Some v1, s6) \<and>
     SkipList_popMin s6 = Some (Some v2, s7) \<and>
     SkipList_popMin s7 = Some (None, s8)"
proof -
  have a0: "\<exists>zs. sl_clean (SkipList_new :: 'v skiplist) zs \<and> live_items SkipList_new zs = []"
    using sl_clean_new by blast
  from SkipList_add_new_key [OF a0, of 1 1 c1 v1] obtain s1 :: "'v skiplist"
    where s1: "SkipList_add SkipList_new c1 1 v1 = Some (True, s1)"
      and a1: "\<exists>zs. sl_clean s1 zs \<and> live_items s1 zs = [(1, v1)]"
    by auto
  from SkipList_add_new_key [OF a1, of 3 3 c2 v3] obtain s2
    where s2: "SkipList_add s1 c2 3 v3 = Some (True, s2)"
      and a2: "\<exists>zs. sl_clean s2 zs \<and> live_items s2 zs = [(1, v1), (3, v3)]"
    by auto
  from SkipList_add_new_key [OF a2, of 2 2 c3 v2] obtain s3
    where s3: "SkipList_add s2 c3 2 v2 = Some (True, s3)"
      and a3: "\<exists>zs. sl_clean s3 zs \<and> live_items s3 zs = [(1, v1), (2, v2), (3, v3)]"
    by auto
  from SkipList_contains_clean [OF a3, of 2]
  have c2: "SkipList_contains s3 2 = Some True" by simp
  from SkipList_contains_clean [OF a3, of 4]
  have c4: "SkipList_contains s3 4 = Some False" by simp
  from SkipList_remove_clean [OF a3, of 3] obtain s4
    where s4: "SkipList_remove s3 3 = Some (True, s4)"
      and a4: "\<exists>zs. sl_clean s4 zs \<and> live_items s4 zs = [(1, v1), (2, v2)]"
    by auto
  from SkipList_remove_clean [OF a4, of 3] obtain s5
    where s5: "SkipList_remove s4 3 = Some (False, s5)"
      and a5: "\<exists>zs. sl_clean s5 zs \<and> live_items s5 zs = [(1, v1), (2, v2)]"
    by auto
  from SkipList_popMin_items [OF sl_clean_inv [OF a5]] obtain s6
    where s6: "SkipList_popMin s5 = Some (Some v1, s6)"
      and a6: "\<exists>zs. sl_inv s6 zs \<and> live_items s6 zs = [(2, v2)]"
    by auto
  from SkipList_popMin_items [OF a6] obtain s7
    where s7: "SkipList_popMin s6 = Some (Some v2, s7)"
      and a7: "\<exists>zs. sl_inv s7 zs \<and> live_items s7 zs = []"
    by auto
  from SkipList_popMin_items [OF a7] obtain s8
    where s8: "SkipList_popMin s7 = Some (None, s8)"
    by auto
  from s1 s2 s3 c2 c4 s4 s5 s6 s7 s8 show ?thesis by blast
qed

end
